theory Spec2Isabelle
  imports Complex_Main "HOL-Library.Multiset" "HOL-Library.Char_ord"
begin

section \<open>Python primitives used by the cipher modules\<close>

text \<open>
  Text is a list of characters, and the model is one of ASCII text, the 26-letter Latin
  alphabet the ciphers are written for. The classification and case functions below are
  Python's \<^verbatim>\<open>str.isalpha\<close>, \<^verbatim>\<open>str.isupper\<close>, \<^verbatim>\<open>str.isdigit\<close>, \<^verbatim>\<open>str.isalnum\<close>,
  \<^verbatim>\<open>str.upper\<close> and \<^verbatim>\<open>str.lower\<close> as they are on ASCII: the letters are \<open>A..Z\<close> (code points
  65..90) and \<open>a..z\<close> (97..122), the digits \<open>0..9\<close> (48..57), and every other character
  is neither a letter nor cased. Python's Unicode tables for characters beyond ASCII are
  not part of the model. \<open>py_ord\<close> and \<open>py_chr\<close> are \<^verbatim>\<open>ord\<close> and \<^verbatim>\<open>chr\<close>; the ciphers
  call \<^verbatim>\<open>chr\<close> on 65..90 and 97..122 only.
  Python's \<^verbatim>\<open>%\<close> and \<^verbatim>\<open>//\<close> on integers are \<open>mod\<close> and \<open>div\<close> on \<open>int\<close> (the result
  of \<open>mod\<close> has the sign of the divisor in both).
\<close>

datatype py_error = IndexError | ZeroDivisionError | ValueError

definition py_ord :: "char \<Rightarrow> int" where
  "py_ord c = of_char c"

definition py_chr :: "int \<Rightarrow> char" where
  "py_chr n = char_of n"

definition isupper :: "char \<Rightarrow> bool" where
  "isupper c = (65 \<le> py_ord c \<and> py_ord c \<le> 90)"

definition islower :: "char \<Rightarrow> bool" where
  "islower c = (97 \<le> py_ord c \<and> py_ord c \<le> 122)"

definition isalpha :: "char \<Rightarrow> bool" where
  "isalpha c = (isupper c \<or> islower c)"

definition isdigit :: "char \<Rightarrow> bool" where
  "isdigit c = (48 \<le> py_ord c \<and> py_ord c \<le> 57)"

definition isalnum :: "char \<Rightarrow> bool" where
  "isalnum c = (isalpha c \<or> isdigit c)"

definition upper :: "char \<Rightarrow> char" where
  "upper c = (if islower c then py_chr (py_ord c - 32) else c)"

definition lower :: "char \<Rightarrow> char" where
  "lower c = (if isupper c then py_chr (py_ord c + 32) else c)"

text \<open>\<^verbatim>\<open>s.isalpha()\<close> on a string: false on the empty string.\<close>

definition str_isalpha :: "string \<Rightarrow> bool" where
  "str_isalpha s = (s \<noteq> [] \<and> list_all isalpha s)"

definition ord_A :: int where
  "ord_A = py_ord CHR ''A''"

definition ord_a :: int where
  "ord_a = py_ord CHR ''a''"

definition ord_Z :: int where
  "ord_Z = py_ord CHR ''Z''"

definition ord_z :: int where
  "ord_z = py_ord CHR ''z''"

section \<open>autokey.py\<close>

text \<open>
  \<^verbatim>\<open>prepare_key\<close>: the upper-cased priming key, then one character of the upper-cased
  text for every \<open>i\<close> in \<^verbatim>\<open>range(len(priming_key), len(text))\<close>. Both branches of the
  source's \<^verbatim>\<open>if text[text_index].isalpha()\<close> append the character and advance
  \<open>text_index\<close>. \<open>text_index\<close> stays below \<open>len(text) - len(priming_key)\<close>, so the read
  \<^verbatim>\<open>text[text_index]\<close> is always in range.
\<close>

definition autokey_prepare_key :: "string \<Rightarrow> string \<Rightarrow> string" where
  "autokey_prepare_key text priming_key =
     (let priming_key' = map upper priming_key;
          text' = map upper text
      in fst (fold (\<lambda>i (key, text_index).
                 if isalpha (text' ! text_index)
                 then (key @ [text' ! text_index], text_index + 1)
                 else (key @ [text' ! text_index], text_index + 1))
               [length priming_key' ..< length text'] (priming_key', 0::nat)))"

definition autokey_encrypt_char :: "char \<Rightarrow> char \<Rightarrow> char" where
  "autokey_encrypt_char text_char key_char =
     (if isalpha text_char then
        (let is_upper = isupper text_char;
             text_num = py_ord (upper text_char) - ord_A;
             key_num = py_ord (upper key_char) - ord_A;
             encrypted_num = (text_num + key_num) mod 26;
             encrypted_char = py_chr (encrypted_num + ord_A)
         in if is_upper then encrypted_char else lower encrypted_char)
      else text_char)"

definition autokey_encrypt :: "string \<Rightarrow> string \<Rightarrow> string" where
  "autokey_encrypt text priming_key =
     map (\<lambda>(text_char, key_char). autokey_encrypt_char text_char key_char)
       (zip text (autokey_prepare_key text priming_key))"

text \<open>
  \<^verbatim>\<open>decrypt\<close>: one pass over \<^verbatim>\<open>enumerate(text)\<close> with the state \<open>(result, text_index)\<close>.
  Past the priming key the key character is \<^verbatim>\<open>result[text_index]\<close>, and \<open>text_index\<close>
  advances only there, on alphabetic characters; the read raises IndexError when
  \<open>text_index\<close> is not below \<open>len(result)\<close>.
\<close>

definition autokey_decrypt_char :: "char \<Rightarrow> int \<Rightarrow> char" where
  "autokey_decrypt_char c key_num =
     (let is_upper = isupper c;
          text_num = py_ord (upper c) - ord_A;
          decrypted_num = (text_num - key_num) mod 26;
          decrypted_char = py_chr (decrypted_num + ord_A)
      in if is_upper then decrypted_char else lower decrypted_char)"

fun autokey_decrypt_loop ::
  "string \<Rightarrow> (nat \<times> char) list \<Rightarrow> string \<Rightarrow> nat \<Rightarrow> py_error + string" where
  "autokey_decrypt_loop key [] result text_index = Inr result"
| "autokey_decrypt_loop key ((i, c) # rest) result text_index =
     (if isalpha c then
        (if i < length key then
           autokey_decrypt_loop key rest
             (result @ [autokey_decrypt_char c (py_ord (upper (key ! i)) - ord_A)]) text_index
         else if text_index < length result then
           autokey_decrypt_loop key rest
             (result @ [autokey_decrypt_char c (py_ord (upper (result ! text_index)) - ord_A)])
             (text_index + 1)
         else Inl IndexError)
      else autokey_decrypt_loop key rest (result @ [c]) text_index)"

definition autokey_decrypt :: "string \<Rightarrow> string \<Rightarrow> py_error + string" where
  "autokey_decrypt text priming_key =
     autokey_decrypt_loop (map upper priming_key) (zip [0 ..< length text] text) [] 0"

section \<open>caesar.py\<close>

text \<open>
  A loop that appends to \<^verbatim>\<open>result\<close> while it walks the text from left to right is the
  list of the appended characters, so the single-character step is mapped over the text.
\<close>

definition caesar_encrypt_char :: "int \<Rightarrow> char \<Rightarrow> char" where
  "caesar_encrypt_char shift c =
     (if isalpha c then
        (let ascii_base = (if isupper c then ord_A else ord_a);
             shifted = (py_ord c - ascii_base + shift) mod 26
         in py_chr (ascii_base + shifted))
      else c)"

definition caesar_encrypt :: "string \<Rightarrow> int \<Rightarrow> string" where
  "caesar_encrypt text shift = map (caesar_encrypt_char shift) text"

definition caesar_decrypt :: "string \<Rightarrow> int \<Rightarrow> string" where
  "caesar_decrypt text shift = caesar_encrypt text (- shift)"

section \<open>affine.py\<close>

function affine_gcd :: "int \<Rightarrow> int \<Rightarrow> int" where
  "affine_gcd a b = (if b \<noteq> 0 then affine_gcd b (a mod b) else a)"
  by pat_completeness auto
termination
  by (relation "measure (\<lambda>(a, b). nat \<bar>b\<bar>)") (auto simp: abs_mod_less)

function extended_gcd :: "int \<Rightarrow> int \<Rightarrow> int \<times> int \<times> int" where
  "extended_gcd a b =
     (if a = 0 then (b, 0, 1)
      else (case extended_gcd (b mod a) a of
              (g, x1, y1) \<Rightarrow> (g, y1 - (b div a) * x1, x1)))"
  by pat_completeness auto
termination
  by (relation "measure (\<lambda>(a, b). nat \<bar>a\<bar>)") (auto simp: abs_mod_less)

definition mod_inverse :: "int \<Rightarrow> int \<Rightarrow> py_error + int" where
  "mod_inverse a m =
     (if affine_gcd a m \<noteq> 1 then Inl ValueError
      else (case extended_gcd a m of
              (g, x, y) \<Rightarrow> if m = 0 then Inl ZeroDivisionError else Inr (x mod m)))"

definition affine_encrypt_char :: "int \<Rightarrow> int \<Rightarrow> char \<Rightarrow> char" where
  "affine_encrypt_char a b c =
     (if isalpha c then
        (let is_upper = isupper c;
             x = py_ord (upper c) - ord_A;
             encrypted_x = (a * x + b) mod 26;
             encrypted_char = py_chr (encrypted_x + ord_A)
         in if is_upper then encrypted_char else lower encrypted_char)
      else c)"

definition affine_encrypt :: "string \<Rightarrow> int \<Rightarrow> int \<Rightarrow> py_error + string" where
  "affine_encrypt text a b =
     (if affine_gcd a 26 \<noteq> 1 then Inl ValueError
      else Inr (map (affine_encrypt_char a b) text))"

definition affine_decrypt_char :: "int \<Rightarrow> int \<Rightarrow> char \<Rightarrow> char" where
  "affine_decrypt_char a_inv b c =
     (if isalpha c then
        (let is_upper = isupper c;
             y = py_ord (upper c) - ord_A;
             decrypted_y = (a_inv * (y - b)) mod 26;
             decrypted_char = py_chr (decrypted_y + ord_A)
         in if is_upper then decrypted_char else lower decrypted_char)
      else c)"

definition affine_decrypt :: "string \<Rightarrow> int \<Rightarrow> int \<Rightarrow> py_error + string" where
  "affine_decrypt text a b =
     (if affine_gcd a 26 \<noteq> 1 then Inl ValueError
      else (case mod_inverse a 26 of
              Inl e \<Rightarrow> Inl e
            | Inr a_inv \<Rightarrow> Inr (map (affine_decrypt_char a_inv b) text)))"

section \<open>atbash.py\<close>

definition atbash_encrypt_char :: "char \<Rightarrow> char" where
  "atbash_encrypt_char c =
     (if isalpha c then
        (if isupper c then py_chr (ord_Z - (py_ord c - ord_A))
         else py_chr (ord_z - (py_ord c - ord_a)))
      else c)"

definition atbash_encrypt :: "string \<Rightarrow> string" where
  "atbash_encrypt text = map atbash_encrypt_char text"

definition atbash_decrypt :: "string \<Rightarrow> string" where
  "atbash_decrypt text = atbash_encrypt text"

section \<open>august.py\<close>

text \<open>The shift is loop state: it advances on alphabetic characters only.\<close>

fun august_encrypt_loop :: "string \<Rightarrow> int \<Rightarrow> string" where
  "august_encrypt_loop [] shift = []"
| "august_encrypt_loop (c # cs) shift =
     (if isalpha c then
        (let ascii_base = (if isupper c then ord_A else ord_a);
             shifted = (py_ord c - ascii_base + shift) mod 26
         in py_chr (ascii_base + shifted) # august_encrypt_loop cs (shift + 1))
      else c # august_encrypt_loop cs shift)"

definition august_encrypt :: "string \<Rightarrow> int \<Rightarrow> string" where
  "august_encrypt text initial_shift = august_encrypt_loop text initial_shift"

fun august_decrypt_loop :: "string \<Rightarrow> int \<Rightarrow> string" where
  "august_decrypt_loop [] shift = []"
| "august_decrypt_loop (c # cs) shift =
     (if isalpha c then
        (let ascii_base = (if isupper c then ord_A else ord_a);
             shifted = (py_ord c - ascii_base - shift) mod 26
         in py_chr (ascii_base + shifted) # august_decrypt_loop cs (shift + 1))
      else c # august_decrypt_loop cs shift)"

definition august_decrypt :: "string \<Rightarrow> int \<Rightarrow> string" where
  "august_decrypt text initial_shift = august_decrypt_loop text initial_shift"

section \<open>vigenere.py\<close>

text \<open>
  \<^verbatim>\<open>prepare_key\<close>: \<^verbatim>\<open>key[key_index % len(key)]\<close> raises ZeroDivisionError for the empty
  key, at the first alphabetic character of the text. The index is below \<open>len(key)\<close>
  otherwise.
\<close>

fun vigenere_prepare_key_loop :: "string \<Rightarrow> string \<Rightarrow> nat \<Rightarrow> py_error + string" where
  "vigenere_prepare_key_loop key [] key_index = Inr []"
| "vigenere_prepare_key_loop key (c # cs) key_index =
     (if isalpha c then
        (if length key = 0 then Inl ZeroDivisionError
         else (case vigenere_prepare_key_loop key cs (key_index + 1) of
                 Inl e \<Rightarrow> Inl e
               | Inr ks \<Rightarrow> Inr (key ! (key_index mod length key) # ks)))
      else (case vigenere_prepare_key_loop key cs key_index of
              Inl e \<Rightarrow> Inl e
            | Inr ks \<Rightarrow> Inr (c # ks)))"

definition vigenere_prepare_key :: "string \<Rightarrow> string \<Rightarrow> py_error + string" where
  "vigenere_prepare_key text key = vigenere_prepare_key_loop (map upper key) text 0"

definition vigenere_encrypt_char :: "char \<Rightarrow> char \<Rightarrow> char" where
  "vigenere_encrypt_char text_char key_char =
     (if isalpha text_char then
        (let is_upper = isupper text_char;
             text_num = py_ord (upper text_char) - ord_A;
             key_num = py_ord (upper key_char) - ord_A;
             encrypted_num = (text_num + key_num) mod 26;
             encrypted_char = py_chr (encrypted_num + ord_A)
         in if is_upper then encrypted_char else lower encrypted_char)
      else text_char)"

definition vigenere_encrypt :: "string \<Rightarrow> string \<Rightarrow> py_error + string" where
  "vigenere_encrypt text key =
     (case vigenere_prepare_key text key of
        Inl e \<Rightarrow> Inl e
      | Inr k \<Rightarrow> Inr (map (\<lambda>(text_char, key_char). vigenere_encrypt_char text_char key_char)
                       (zip text k)))"

definition vigenere_decrypt_char :: "char \<Rightarrow> char \<Rightarrow> char" where
  "vigenere_decrypt_char text_char key_char =
     (if isalpha text_char then
        (let is_upper = isupper text_char;
             text_num = py_ord (upper text_char) - ord_A;
             key_num = py_ord (upper key_char) - ord_A;
             decrypted_num = (text_num - key_num) mod 26;
             decrypted_char = py_chr (decrypted_num + ord_A)
         in if is_upper then decrypted_char else lower decrypted_char)
      else text_char)"

definition vigenere_decrypt :: "string \<Rightarrow> string \<Rightarrow> py_error + string" where
  "vigenere_decrypt text key =
     (case vigenere_prepare_key text key of
        Inl e \<Rightarrow> Inl e
      | Inr k \<Rightarrow> Inr (map (\<lambda>(text_char, key_char). vigenere_decrypt_char text_char key_char)
                       (zip text k)))"

section \<open>beaufort.py\<close>

fun beaufort_prepare_key_loop :: "string \<Rightarrow> string \<Rightarrow> nat \<Rightarrow> py_error + string" where
  "beaufort_prepare_key_loop key [] key_index = Inr []"
| "beaufort_prepare_key_loop key (c # cs) key_index =
     (if isalpha c then
        (if length key = 0 then Inl ZeroDivisionError
         else (case beaufort_prepare_key_loop key cs (key_index + 1) of
                 Inl e \<Rightarrow> Inl e
               | Inr ks \<Rightarrow> Inr (key ! (key_index mod length key) # ks)))
      else (case beaufort_prepare_key_loop key cs key_index of
              Inl e \<Rightarrow> Inl e
            | Inr ks \<Rightarrow> Inr (c # ks)))"

definition beaufort_prepare_key :: "string \<Rightarrow> string \<Rightarrow> py_error + string" where
  "beaufort_prepare_key text key = beaufort_prepare_key_loop (map upper key) text 0"

definition beaufort_char :: "char \<Rightarrow> char \<Rightarrow> char" where
  "beaufort_char text_char key_char =
     (if isalpha text_char then
        (let is_upper = isupper text_char;
             text_num = py_ord (upper text_char) - ord_A;
             key_num = py_ord (upper key_char) - ord_A;
             beaufort_num = (key_num - text_num) mod 26;
             beaufort_char = py_chr (beaufort_num + ord_A)
         in if is_upper then beaufort_char else lower beaufort_char)
      else text_char)"

definition beaufort :: "string \<Rightarrow> string \<Rightarrow> py_error + string" where
  "beaufort text key =
     (case beaufort_prepare_key text key of
        Inl e \<Rightarrow> Inl e
      | Inr k \<Rightarrow> Inr (map (\<lambda>(text_char, key_char). beaufort_char text_char key_char)
                       (zip text k)))"

text \<open>\<^verbatim>\<open>encrypt = beaufort\<close> and \<^verbatim>\<open>decrypt = beaufort\<close>.\<close>

definition beaufort_encrypt :: "string \<Rightarrow> string \<Rightarrow> py_error + string" where
  "beaufort_encrypt = beaufort"

definition beaufort_decrypt :: "string \<Rightarrow> string \<Rightarrow> py_error + string" where
  "beaufort_decrypt = beaufort"

section \<open>railfence.py\<close>

text \<open>
  The fence is a list of \<open>rails\<close> rows of \<open>len(text)\<close> cells, every cell the newline
  character until the zigzag writes it. \<open>py_index\<close> is Python's list indexing (a negative
  index counts from the end, anything else out of range raises IndexError); the column
  index \<open>i\<close> runs over \<^verbatim>\<open>range(len(text))\<close> and is always in range. \<^verbatim>\<open>encrypt\<close> reads the
  rows top to bottom and skips the cells that hold a newline. \<open>canonical_form\<close> is the
  filtered, case-folded copy of a text that \<^verbatim>\<open>route.create_grid\<close> and
  \<^verbatim>\<open>myszkowski.prepare_text_and_key\<close> compute.
\<close>

definition newline :: char where
  "newline = CHR 0x0A"

definition py_index :: "nat \<Rightarrow> int \<Rightarrow> nat option" where
  "py_index n i =
     (if 0 \<le> i \<and> i < int n then Some (nat i)
      else if - int n \<le> i \<and> i < 0 then Some (nat (int n + i))
      else None)"

fun create_fence_loop ::
  "string \<Rightarrow> int \<Rightarrow> nat list \<Rightarrow> string list \<Rightarrow> int \<Rightarrow> int \<Rightarrow> py_error + string list" where
  "create_fence_loop text rails [] fence rail direction = Inr fence"
| "create_fence_loop text rails (i # rest) fence rail direction =
     (case py_index (length fence) rail of
        None \<Rightarrow> Inl IndexError
      | Some r \<Rightarrow>
          (let fence' = fence[r := (fence ! r)[i := text ! i]];
               direction' = (if rail = 0 then 1 else if rail = rails - 1 then - 1 else direction)
           in create_fence_loop text rails rest fence' (rail + direction') direction'))"

definition create_fence :: "string \<Rightarrow> int \<Rightarrow> py_error + string list" where
  "create_fence text rails =
     create_fence_loop text rails [0 ..< length text]
       (replicate (nat rails) (replicate (length text) newline)) 0 1"

definition railfence_encrypt :: "string \<Rightarrow> int \<Rightarrow> py_error + string" where
  "railfence_encrypt text rails =
     (if rails < 2 then Inl ValueError
      else if rails > int (length text) then Inl ValueError
      else (case create_fence text rails of
              Inl e \<Rightarrow> Inl e
            | Inr fence \<Rightarrow> Inr (filter (\<lambda>c. c \<noteq> newline) (concat fence))))"

definition canonical_form :: "string \<Rightarrow> string" where
  "canonical_form text = map upper (filter isalnum text)"

section \<open>ngram.py\<close>

text \<open>
  A dict is an association list in insertion order: \<open>dict_set\<close> overwrites the value of a
  key that is present, where it stands, and appends a new key; \<open>dict_update\<close> is
  \<^verbatim>\<open>dict.update\<close>. \<open>py_slice\<close> is the slice \<^verbatim>\<open>xs[i:j]\<close>, where a negative bound counts from
  the end and every bound is clipped to the list. \<^verbatim>\<open>range(a, b + 1)\<close> over the integers
  is \<open>[a..b]\<close>. The quotient of \<^verbatim>\<open>index_of_coincidence\<close> is kept exact, as a rational; the
  rounding of Python's float plays no part in what is proved about it.
  \<open>entry_ok\<close> and \<open>repeated_ok\<close> are the invariants of the two loops of
  \<^verbatim>\<open>find_repeated_sequences\<close>.
\<close>

primrec dict_set :: "'k \<Rightarrow> 'v \<Rightarrow> ('k \<times> 'v) list \<Rightarrow> ('k \<times> 'v) list" where
  "dict_set k v [] = [(k, v)]"
| "dict_set k v (p # ps) = (if fst p = k then (k, v) # ps else p # dict_set k v ps)"

definition dict_get :: "('k \<times> 'v) list \<Rightarrow> 'k \<Rightarrow> 'v option" where
  "dict_get d k = map_of d k"

definition py_slice :: "'a list \<Rightarrow> int \<Rightarrow> int \<Rightarrow> 'a list" where
  "py_slice xs i j =
     (let n = int (length xs);
          lo = (if i < 0 then max (i + n) 0 else min i n);
          hi = (if j < 0 then max (j + n) 0 else min j n)
      in if lo < hi then take (nat (hi - lo)) (drop (nat lo) xs) else [])"

definition sequences_step ::
  "string \<Rightarrow> int \<Rightarrow> int \<Rightarrow> (string \<times> int list) list \<Rightarrow> (string \<times> int list) list" where
  "sequences_step text len i sequences =
     (let seq = py_slice text i (i + len)
      in if str_isalpha seq then
           (case dict_get sequences seq of
              Some pos \<Rightarrow> dict_set seq (pos @ [i]) sequences
            | None \<Rightarrow> dict_set seq [i] sequences)
         else sequences)"

definition collect_sequences :: "string \<Rightarrow> int \<Rightarrow> (string \<times> int list) list" where
  "collect_sequences text len =
     fold (sequences_step text len) [0 .. int (length text) - len] []"

definition dict_update :: "('k \<times> 'v) list \<Rightarrow> ('k \<times> 'v) list \<Rightarrow> ('k \<times> 'v) list" where
  "dict_update d new = fold (\<lambda>(k, v) acc. dict_set k v acc) new d"

definition find_repeated_sequences ::
  "string \<Rightarrow> int \<Rightarrow> int \<Rightarrow> (string \<times> int list) list" where
  "find_repeated_sequences text min_length max_length =
     (let text' = map upper text
      in fold (\<lambda>len repeated_sequences.
                 dict_update repeated_sequences
                   (filter (\<lambda>(seq, pos). length pos > 1) (collect_sequences text' len)))
              [min_length .. max_length] [])"

definition py_truediv :: "int \<Rightarrow> int \<Rightarrow> py_error + rat" where
  "py_truediv a b = (if b = 0 then Inl ZeroDivisionError else Inr (of_int a / of_int b))"

definition counter_values :: "string \<Rightarrow> int list" where
  "counter_values s = map (\<lambda>c. int (count_list s c)) (remdups s)"

definition index_of_coincidence :: "string \<Rightarrow> py_error + rat" where
  "index_of_coincidence text =
     (let text' = filter isalpha (map upper text)
      in if length text' \<le> 1 then Inr 0
         else (let frequencies = counter_values text';
                   n = int (length text')
               in py_truediv (sum_list (map (\<lambda>f. f * (f - 1)) frequencies)) (n * (n - 1))))"

definition entry_ok :: "string \<Rightarrow> int \<Rightarrow> int \<Rightarrow> string \<times> int list \<Rightarrow> bool" where
  "entry_ok tx len bound e =
     (case e of (k, ps) \<Rightarrow>
        int (length k) = len \<and> set k \<subseteq> set tx \<and> str_isalpha k \<and>
        sorted_wrt (<) ps \<and> (\<forall>p\<in>set ps. p < bound))"

definition repeated_ok :: "int \<Rightarrow> int \<Rightarrow> string \<times> int list \<Rightarrow> bool" where
  "repeated_ok min_length max_length e =
     (case e of (k, ps) \<Rightarrow>
        min_length \<le> int (length k) \<and> int (length k) \<le> max_length \<and>
        k \<noteq> [] \<and> list_all (\<lambda>c. isalpha c \<and> isupper c) k \<and>
        sorted_wrt (<) ps \<and> 2 \<le> length ps)"

section \<open>myszkowski.py\<close>

text \<open>
  \<^verbatim>\<open>get_column_groups\<close>: the column indices grouped by key letter, in a dict, then
  \<^verbatim>\<open>dict(sorted(groups.items()))\<close>: the keys are distinct, so the items are sorted by
  letter (by code point). \<^verbatim>\<open>decrypt\<close> divides by \<open>len(key)\<close>, builds a grid of
  \<open>rows \<times> cols\<close> empty strings and fills it column by column in group order; the three
  nested loops are \<open>fill_groups\<close>, \<open>fill_columns\<close> and \<open>fill_rows\<close>, with the state
  \<open>(grid, index)\<close>. Every subscript is checked: reading \<^verbatim>\<open>text[index]\<close> or writing
  \<^verbatim>\<open>grid[row][col]\<close> out of range is IndexError. \<open>grid_shape\<close> says that a grid has
  \<open>rows\<close> rows of \<open>cols\<close> cells.
\<close>

definition column_groups_step ::
  "nat \<times> char \<Rightarrow> (char \<times> nat list) list \<Rightarrow> (char \<times> nat list) list" where
  "column_groups_step ic groups =
     (case ic of (i, c) \<Rightarrow>
        (case dict_get groups c of
           Some cols \<Rightarrow> dict_set c (cols @ [i]) groups
         | None \<Rightarrow> dict_set c [i] groups))"

definition get_column_groups :: "string \<Rightarrow> (char \<times> nat list) list" where
  "get_column_groups key = sort_key fst (fold column_groups_step (enumerate 0 key) [])"

fun fill_rows ::
  "string \<Rightarrow> nat \<Rightarrow> nat list \<Rightarrow> string list list \<Rightarrow> nat \<Rightarrow> py_error + (string list list \<times> nat)" where
  "fill_rows text col [] grid index = Inr (grid, index)"
| "fill_rows text col (row # rest) grid index =
     (if index < length text \<and> row < length grid \<and> col < length (grid ! row) then
        fill_rows text col rest (grid[row := (grid ! row)[col := [text ! index]]]) (index + 1)
      else Inl IndexError)"

fun fill_columns ::
  "string \<Rightarrow> nat \<Rightarrow> nat list \<Rightarrow> string list list \<Rightarrow> nat \<Rightarrow> py_error + (string list list \<times> nat)" where
  "fill_columns text rows [] grid index = Inr (grid, index)"
| "fill_columns text rows (col # rest) grid index =
     (case fill_rows text col [0 ..< rows] grid index of
        Inl e \<Rightarrow> Inl e
      | Inr (grid', index') \<Rightarrow> fill_columns text rows rest grid' index')"

fun fill_groups ::
  "string \<Rightarrow> nat \<Rightarrow> (char \<times> nat list) list \<Rightarrow> string list list \<Rightarrow> nat \<Rightarrow>
   py_error + (string list list \<times> nat)" where
  "fill_groups text rows [] grid index = Inr (grid, index)"
| "fill_groups text rows ((letter, columns) # rest) grid index =
     (case fill_columns text rows columns grid index of
        Inl e \<Rightarrow> Inl e
      | Inr (grid', index') \<Rightarrow> fill_groups text rows rest grid' index')"

definition myszkowski_decrypt :: "string \<Rightarrow> string \<Rightarrow> py_error + string" where
  "myszkowski_decrypt text key =
     (let cols = length key
      in if cols = 0 then Inl ZeroDivisionError
         else (let rows = length text div cols;
                   grid = replicate rows (replicate cols [])
               in (case fill_groups text rows (get_column_groups key) grid 0 of
                     Inl e \<Rightarrow> Inl e
                   | Inr (grid', index') \<Rightarrow> Inr (concat (concat grid')))))"

definition grid_shape :: "'a list list \<Rightarrow> nat \<Rightarrow> nat \<Rightarrow> bool" where
  "grid_shape g rows cols = (length g = rows \<and> (\<forall>r<rows. length (g ! r) = cols))"

section \<open>route.py: the pattern generators\<close>

text \<open>
  The coordinates are pairs of Python integers. \<^verbatim>\<open>range(a, b)\<close> is \<open>[a .. b - 1]\<close> and the
  descending \<^verbatim>\<open>range(a, b, -1)\<close> is \<open>rev [b + 1 .. a]\<close>. The \<^verbatim>\<open>while\<close> loop of
  \<^verbatim>\<open>spiral_inward\<close> is \<open>spiral_loop\<close> on the state \<open>(top, bottom, left, right,
  coordinates)\<close>; its termination measure is \<open>bottom - top + 1\<close>. \<open>grid_cells\<close> is the set
  of the cells of a \<open>rows \<times> cols\<close> grid, and \<open>ring\<close> the list one pass of the loop
  appends.
\<close>

function spiral_loop ::
  "int \<Rightarrow> int \<Rightarrow> int \<Rightarrow> int \<Rightarrow> (int \<times> int) list \<Rightarrow> (int \<times> int) list" where
  "spiral_loop top_row bottom_row left_col right_col coordinates =
     (if top_row \<le> bottom_row \<and> left_col \<le> right_col then
        (let coordinates1 = coordinates @ map (\<lambda>i. (top_row, i)) [left_col .. right_col];
             top_row' = top_row + 1;
             coordinates2 = coordinates1 @ map (\<lambda>i. (i, right_col)) [top_row' .. bottom_row];
             right_col' = right_col - 1;
             coordinates3 = (if top_row' \<le> bottom_row
                             then coordinates2 @ map (\<lambda>i. (bottom_row, i)) (rev [left_col .. right_col'])
                             else coordinates2);
             bottom_row' = (if top_row' \<le> bottom_row then bottom_row - 1 else bottom_row);
             coordinates4 = (if left_col \<le> right_col'
                             then coordinates3 @ map (\<lambda>i. (i, left_col)) (rev [top_row' .. bottom_row'])
                             else coordinates3);
             left_col' = (if left_col \<le> right_col' then left_col + 1 else left_col)
         in spiral_loop top_row' bottom_row' left_col' right_col' coordinates4)
      else coordinates)"
  by pat_completeness auto
termination
  by (relation "measure (\<lambda>(top_row, bottom_row, left_col, right_col, coordinates). nat (bottom_row - top_row + 1))") auto

definition spiral_inward :: "int \<Rightarrow> int \<Rightarrow> (int \<times> int) list" where
  "spiral_inward rows cols = spiral_loop 0 (rows - 1) 0 (cols - 1) []"

definition spiral_outward :: "int \<Rightarrow> int \<Rightarrow> (int \<times> int) list" where
  "spiral_outward rows cols = rev (spiral_inward rows cols)"

definition snake_pattern :: "int \<Rightarrow> int \<Rightarrow> (int \<times> int) list" where
  "snake_pattern rows cols =
     concat (map (\<lambda>i. if i mod 2 = 0 then map (\<lambda>j. (i, j)) [0 .. cols - 1]
                        else map (\<lambda>j. (i, j)) (rev [0 .. cols - 1]))
                 [0 .. rows - 1])"

definition diagonal_pattern :: "int \<Rightarrow> int \<Rightarrow> (int \<times> int) list" where
  "diagonal_pattern rows cols =
     concat (map (\<lambda>sum_idx.
                    concat (map (\<lambda>i. let j = sum_idx - i
                                       in if 0 \<le> j \<and> j < cols then [(i, j)] else [])
                                [0 .. rows - 1]))
                 [0 .. rows + cols - 2])"

definition grid_cells :: "int \<Rightarrow> int \<Rightarrow> (int \<times> int) set" where
  "grid_cells rows cols = {0 .. rows - 1} \<times> {0 .. cols - 1}"

definition ring :: "int \<Rightarrow> int \<Rightarrow> int \<Rightarrow> int \<Rightarrow> (int \<times> int) list" where
  "ring t b l r =
     map (\<lambda>i. (t, i)) [l .. r] @ map (\<lambda>i. (i, r)) [t + 1 .. b] @
     (if t + 1 \<le> b then map (\<lambda>i. (b, i)) (rev [l .. r - 1]) else []) @
     (if l \<le> r - 1
      then map (\<lambda>i. (i, l)) (rev [t + 1 .. (if t + 1 \<le> b then b - 1 else b)]) else [])"

section \<open>Case and passthrough preservation, as a predicate\<close>

text \<open>
  What a substitution cipher may do to one character: a letter becomes a letter of the
  same case, any other character stays as it is. \<open>preserved_list\<close> asks it position by
  position of two lists of the same length; \<open>case_passthrough\<close> says the same with
  explicit positions.
\<close>

definition char_preserved :: "char \<Rightarrow> char \<Rightarrow> bool" where
  "char_preserved c d = (if isalpha c then isalpha d \<and> isupper d = isupper c else d = c)"

definition preserved_list :: "string \<Rightarrow> string \<Rightarrow> bool" where
  "preserved_list msg out = list_all2 char_preserved msg out"

definition case_passthrough :: "string \<Rightarrow> string \<Rightarrow> bool" where
  "case_passthrough msg out =
     (length out = length msg \<and>
      (\<forall>i \<in> {..<length msg}.
         (\<not> isalpha (msg ! i) \<longrightarrow> out ! i = msg ! i) \<and>
         (isalpha (msg ! i) \<longrightarrow> isalpha (out ! i) \<and> isupper (out ! i) = isupper (msg ! i))))"

declare affine_gcd.simps [simp del] extended_gcd.simps [simp del] spiral_loop.simps [simp del]

section \<open>Character lemmas\<close>

lemma py_ord_range: "0 \<le> py_ord c \<and> py_ord c < 256"
  unfolding py_ord_def by (cases c) simp

lemma py_ord_chr: "0 \<le> n \<Longrightarrow> n < 256 \<Longrightarrow> py_ord (py_chr n) = n"
  unfolding py_ord_def py_chr_def by simp

lemma py_chr_ord: "py_chr (py_ord c) = c"
  unfolding py_ord_def py_chr_def by simp

lemma ord_consts: "ord_A = 65" "ord_a = 97" "ord_Z = 90" "ord_z = 122"
  unfolding ord_A_def ord_a_def ord_Z_def ord_z_def py_ord_def by simp_all

lemma isupper_chr: "65 \<le> m \<Longrightarrow> m \<le> 90 \<Longrightarrow> isupper (py_chr m)"
  unfolding isupper_def by (simp add: py_ord_chr)

lemma islower_chr: "97 \<le> m \<Longrightarrow> m \<le> 122 \<Longrightarrow> islower (py_chr m)"
  unfolding islower_def by (simp add: py_ord_chr)

lemma not_isupper_chr: "97 \<le> m \<Longrightarrow> m \<le> 122 \<Longrightarrow> \<not> isupper (py_chr m)"
  unfolding isupper_def by (simp add: py_ord_chr)

lemma not_upper_lower: "isupper c \<Longrightarrow> \<not> islower c"
  unfolding isupper_def islower_def by simp

lemma lower_chr: "65 \<le> m \<Longrightarrow> m \<le> 90 \<Longrightarrow> lower (py_chr m) = py_chr (m + 32)"
  unfolding lower_def by (simp add: isupper_chr py_ord_chr)

lemma upper_chr: "97 \<le> m \<Longrightarrow> m \<le> 122 \<Longrightarrow> upper (py_chr m) = py_chr (m - 32)"
  unfolding upper_def by (simp add: islower_chr py_ord_chr)

lemma upper_of_upper: "isupper c \<Longrightarrow> upper c = c"
  unfolding upper_def by (simp add: not_upper_lower)

lemma ord_upper_lower: "islower c \<Longrightarrow> py_ord (upper c) = py_ord c - 32"
  unfolding upper_def islower_def by (simp add: py_ord_chr)

lemma isalpha_upper: "isalpha (upper c) = isalpha c"
  unfolding upper_def isalpha_def
  by (auto simp: islower_def isupper_def py_ord_chr)

lemma isupper_upper: "isalpha c \<Longrightarrow> isupper (upper c)"
  unfolding upper_def isalpha_def
  by (auto simp: islower_def isupper_def py_ord_chr)

lemma recase_preserved:
  assumes "isalpha c" "0 \<le> n" "n < 26"
  shows "char_preserved c (if isupper c then py_chr (n + 65) else lower (py_chr (n + 65)))"
  using assms unfolding char_preserved_def isalpha_def
  by (auto simp: lower_chr isupper_chr islower_chr not_isupper_chr)

lemma caesar_char_preserved: "char_preserved c (caesar_encrypt_char shift c)"
proof (cases "isalpha c")
  case False then show ?thesis by (simp add: caesar_encrypt_char_def char_preserved_def)
next
  case True
  define n where "n = (py_ord c - (if isupper c then 65 else 97) + shift) mod 26"
  have n: "0 \<le> n" "n < 26" by (simp_all add: n_def)
  have e: "caesar_encrypt_char shift c = py_chr ((if isupper c then 65 else 97) + n)"
    using True by (simp add: caesar_encrypt_char_def ord_consts Let_def n_def)
  show ?thesis using True n unfolding e char_preserved_def isalpha_def
    by (auto simp: isupper_chr islower_chr not_isupper_chr)
qed

lemma vigenere_char_preserved: "char_preserved c (vigenere_encrypt_char c k)"
proof (cases "isalpha c")
  case False then show ?thesis by (simp add: vigenere_encrypt_char_def char_preserved_def)
next
  case True
  show ?thesis using recase_preserved[OF True, of "(py_ord (upper c) - 65 + (py_ord (upper k) - 65)) mod 26"] True
    unfolding vigenere_encrypt_char_def by (simp add: ord_consts Let_def)
qed

lemma beaufort_char_eq:
  "isalpha x \<Longrightarrow> beaufort_char x k =
     (if isupper x then py_chr ((py_ord (upper k) - 65 - (py_ord (upper x) - 65)) mod 26 + 65)
      else lower (py_chr ((py_ord (upper k) - 65 - (py_ord (upper x) - 65)) mod 26 + 65)))"
  by (simp add: beaufort_char_def Let_def ord_consts)

lemma beaufort_char_invol: "beaufort_char (beaufort_char x k) k = x"
proof (cases "isalpha x")
  case False then show ?thesis by (simp add: beaufort_char_def)
next
  case True
  define kn where "kn = py_ord (upper k) - 65"
  define m where "m = (kn - (py_ord (upper x) - 65)) mod 26"
  have m: "0 \<le> m" "m < 26" by (simp_all add: m_def)
  show ?thesis
  proof (cases "isupper x")
    case up: True
    define tn where "tn = py_ord x - 65"
    have tn: "0 \<le> tn" "tn < 26" using up by (simp_all add: tn_def isupper_def)
    have e1: "beaufort_char x k = py_chr (m + 65)"
      unfolding beaufort_char_eq[OF True] m_def kn_def using up by simp
    have u: "isupper (py_chr (m + 65))" using m by (simp add: isupper_chr)
    then have a: "isalpha (py_chr (m + 65))" by (simp add: isalpha_def)
    have o: "py_ord (py_chr (m + 65)) = m + 65" using m by (simp add: py_ord_chr)
    have "beaufort_char (py_chr (m + 65)) k = py_chr ((kn - (m + 65 - 65)) mod 26 + 65)"
      unfolding beaufort_char_eq[OF a] kn_def using u by (simp add: upper_of_upper o)
    also have "(kn - (m + 65 - 65)) mod 26 = tn"
      using tn up by (simp add: m_def mod_diff_right_eq upper_of_upper tn_def)
    also have "py_chr (tn + 65) = x" by (simp add: tn_def py_chr_ord)
    finally show ?thesis using e1 by simp
  next
    case False
    with \<open>isalpha x\<close> have lo: "islower x" by (simp add: isalpha_def)
    define tn where "tn = py_ord x - 97"
    have tn: "0 \<le> tn" "tn < 26" using lo by (simp_all add: tn_def islower_def)
    have "beaufort_char x k = lower (py_chr (m + 65))"
      unfolding beaufort_char_eq[OF True] m_def kn_def using False by simp
    then have e1: "beaufort_char x k = py_chr (m + 97)" using m by (simp add: lower_chr add.commute)
    have u: "islower (py_chr (m + 97))" "\<not> isupper (py_chr (m + 97))"
      using m by (simp_all add: islower_chr not_isupper_chr)
    then have a: "isalpha (py_chr (m + 97))" by (simp add: isalpha_def)
    have o: "py_ord (upper (py_chr (m + 97))) = m + 65" using m by (simp add: upper_chr py_ord_chr)
    have "beaufort_char (py_chr (m + 97)) k = lower (py_chr ((kn - (m + 65 - 65)) mod 26 + 65))"
      unfolding beaufort_char_eq[OF a] kn_def using u by (simp add: o)
    also have "(kn - (m + 65 - 65)) mod 26 = tn"
      using tn lo by (simp add: m_def mod_diff_right_eq ord_upper_lower tn_def)
    also have "lower (py_chr (tn + 65)) = py_chr (tn + 97)" using tn by (simp add: lower_chr add.commute)
    also have "py_chr (tn + 97) = x" by (simp add: tn_def py_chr_ord)
    finally show ?thesis using e1 by simp
  qed
qed

lemma beaufort_char_preserved: "char_preserved c (beaufort_char c k)"
proof (cases "isalpha c")
  case False then show ?thesis by (simp add: beaufort_char_def char_preserved_def)
next
  case True
  show ?thesis using recase_preserved[OF True, of "(py_ord (upper k) - 65 - (py_ord (upper c) - 65)) mod 26"] True
    unfolding beaufort_char_def by (simp add: ord_consts Let_def)
qed

lemma vigenere_dec_char_preserved: "char_preserved c (vigenere_decrypt_char c k)"
proof (cases "isalpha c")
  case False then show ?thesis by (simp add: vigenere_decrypt_char_def char_preserved_def)
next
  case True
  show ?thesis using recase_preserved[OF True, of "(py_ord (upper c) - 65 - (py_ord (upper k) - 65)) mod 26"] True
    unfolding vigenere_decrypt_char_def by (simp add: ord_consts Let_def)
qed

lemma autokey_enc_char_preserved: "char_preserved c (autokey_encrypt_char c k)"
proof (cases "isalpha c")
  case False then show ?thesis by (simp add: autokey_encrypt_char_def char_preserved_def)
next
  case True
  show ?thesis using recase_preserved[OF True, of "(py_ord (upper c) - 65 + (py_ord (upper k) - 65)) mod 26"] True
    unfolding autokey_encrypt_char_def by (simp add: ord_consts Let_def)
qed

lemma autokey_dec_char_preserved: "isalpha c \<Longrightarrow> char_preserved c (autokey_decrypt_char c kn)"
  using recase_preserved[of c "(py_ord (upper c) - 65 - kn) mod 26"]
  unfolding autokey_decrypt_char_def by (simp add: ord_consts Let_def)

lemma affine_enc_char_preserved: "char_preserved c (affine_encrypt_char a b c)"
proof (cases "isalpha c")
  case False then show ?thesis by (simp add: affine_encrypt_char_def char_preserved_def)
next
  case True
  show ?thesis using recase_preserved[OF True, of "(a * (py_ord (upper c) - 65) + b) mod 26"] True
    unfolding affine_encrypt_char_def by (simp add: ord_consts Let_def)
qed

lemma affine_dec_char_preserved: "char_preserved c (affine_decrypt_char a b c)"
proof (cases "isalpha c")
  case False then show ?thesis by (simp add: affine_decrypt_char_def char_preserved_def)
next
  case True
  show ?thesis using recase_preserved[OF True, of "(a * (py_ord (upper c) - 65 - b)) mod 26"] True
    unfolding affine_decrypt_char_def by (simp add: ord_consts Let_def)
qed

lemma atbash_char_preserved: "char_preserved c (atbash_encrypt_char c)"
proof (cases "isalpha c")
  case False then show ?thesis by (simp add: atbash_encrypt_char_def char_preserved_def)
next
  case True
  show ?thesis
  proof (cases "isupper c")
    case up: True
    define m where "m = 90 - (py_ord c - 65)"
    have m: "65 \<le> m" "m \<le> 90" using up by (simp_all add: m_def isupper_def)
    have "atbash_encrypt_char c = py_chr m"
      using True up by (simp add: atbash_encrypt_char_def ord_consts m_def)
    then show ?thesis using True up m
      by (simp add: char_preserved_def isalpha_def isupper_chr)
  next
    case False
    with True have lo: "islower c" by (simp add: isalpha_def)
    define m where "m = 122 - (py_ord c - 97)"
    have m: "97 \<le> m" "m \<le> 122" using lo by (simp_all add: m_def islower_def)
    have "atbash_encrypt_char c = py_chr m"
      using True False by (simp add: atbash_encrypt_char_def ord_consts m_def)
    then show ?thesis using True False m
      by (simp add: char_preserved_def isalpha_def islower_chr not_isupper_chr)
  qed
qed

section \<open>The substitution ciphers on whole texts\<close>

lemma preserved_list_map:
  "(\<And>c. char_preserved c (f c)) \<Longrightarrow> preserved_list msg (map f msg)"
  unfolding preserved_list_def by (simp add: list.rel_map list_all2_same)

lemma preserved_list_zip:
  "length msg \<le> length ks \<Longrightarrow> (\<And>c k. char_preserved c (f c k)) \<Longrightarrow>
   preserved_list msg (map (\<lambda>(c, k). f c k) (zip msg ks))"
  unfolding preserved_list_def
proof (induction msg arbitrary: ks)
  case Nil then show ?case by simp
next
  case (Cons c cs)
  then show ?case by (cases ks) auto
qed

lemma vigenere_prepare_key_loop_ok:
  "key \<noteq> [] \<Longrightarrow> \<exists>ks. vigenere_prepare_key_loop key msg i = Inr ks \<and> length ks = length msg"
proof (induction msg arbitrary: i)
  case Nil show ?case by simp
next
  case (Cons c cs)
  obtain k1 where k1: "vigenere_prepare_key_loop key cs i = Inr k1" "length k1 = length cs"
    using Cons by blast
  obtain k2 where k2: "vigenere_prepare_key_loop key cs (i + 1) = Inr k2" "length k2 = length cs"
    using Cons by blast
  show ?case using Cons.prems k1 k2 by simp
qed

lemma beaufort_prepare_key_loop_ok:
  "key \<noteq> [] \<Longrightarrow> \<exists>ks. beaufort_prepare_key_loop key msg i = Inr ks \<and> length ks = length msg"
proof (induction msg arbitrary: i)
  case Nil show ?case by simp
next
  case (Cons c cs)
  obtain k1 where k1: "beaufort_prepare_key_loop key cs i = Inr k1" "length k1 = length cs"
    using Cons by blast
  obtain k2 where k2: "beaufort_prepare_key_loop key cs (i + 1) = Inr k2" "length k2 = length cs"
    using Cons by blast
  show ?case using Cons.prems k1 k2 by simp
qed

lemma vigenere_encrypt_ok:
  assumes "key \<noteq> []"
  shows "\<exists>out. vigenere_encrypt msg key = Inr out \<and> preserved_list msg out"
proof -
  from assms have "map upper key \<noteq> []" by simp
  from vigenere_prepare_key_loop_ok[OF this, of msg 0]
  obtain ks where ks: "vigenere_prepare_key msg key = Inr ks" "length ks = length msg"
    unfolding vigenere_prepare_key_def by blast
  show ?thesis unfolding vigenere_encrypt_def ks
    using preserved_list_zip[of msg ks vigenere_encrypt_char] ks(2)
    by (simp add: vigenere_char_preserved)
qed

lemma vigenere_decrypt_ok:
  assumes "key \<noteq> []"
  shows "\<exists>out. vigenere_decrypt msg key = Inr out \<and> preserved_list msg out"
proof -
  from assms have "map upper key \<noteq> []" by simp
  from vigenere_prepare_key_loop_ok[OF this, of msg 0]
  obtain ks where ks: "vigenere_prepare_key msg key = Inr ks" "length ks = length msg"
    unfolding vigenere_prepare_key_def by blast
  show ?thesis unfolding vigenere_decrypt_def ks
    using preserved_list_zip[of msg ks vigenere_decrypt_char] ks(2)
    by (simp add: vigenere_dec_char_preserved)
qed

lemma beaufort_ok:
  assumes "key \<noteq> []"
  shows "\<exists>out. beaufort msg key = Inr out \<and> preserved_list msg out"
proof -
  from assms have "map upper key \<noteq> []" by simp
  from beaufort_prepare_key_loop_ok[OF this, of msg 0]
  obtain ks where ks: "beaufort_prepare_key msg key = Inr ks" "length ks = length msg"
    unfolding beaufort_prepare_key_def by blast
  show ?thesis unfolding beaufort_def ks
    using preserved_list_zip[of msg ks beaufort_char] ks(2)
    by (simp add: beaufort_char_preserved)
qed

lemma autokey_fold_length:
  "length (fst (fold (\<lambda>i (key, text_index).
                 if isalpha (t ! text_index)
                 then (key @ [t ! text_index], text_index + 1)
                 else (key @ [t ! text_index], text_index + 1)) xs (key0, ti)))
   = length key0 + length xs"
  by (induction xs arbitrary: key0 ti) simp_all

lemma autokey_prepare_key_length:
  "length msg \<le> length (autokey_prepare_key msg priming_key)"
  unfolding autokey_prepare_key_def Let_def autokey_fold_length by simp

lemma autokey_encrypt_ok: "preserved_list msg (autokey_encrypt msg priming_key)"
  unfolding autokey_encrypt_def
  by (rule preserved_list_zip[OF autokey_prepare_key_length]) (rule autokey_enc_char_preserved)

lemma char_preserved_nonalpha: "\<not> isalpha c \<Longrightarrow> char_preserved c c"
  by (simp add: char_preserved_def)

lemma autokey_decrypt_loop_ok:
  "key \<noteq> [] \<Longrightarrow> length result = n \<Longrightarrow> ti + length key \<le> max (length key) n \<Longrightarrow>
   \<exists>out. autokey_decrypt_loop key (enumerate n cs) result ti = Inr (result @ out)
          \<and> list_all2 char_preserved cs out"
proof (induction cs arbitrary: n result ti)
  case Nil then show ?case by simp
next
  case (Cons c cs)
  have p3: "ti + length key \<le> max (length key) (Suc n)" using Cons.prems(3) by linarith
  show ?case
  proof (cases "isalpha c")
    case False
    have p2: "length (result @ [c]) = Suc n" using Cons.prems(2) by simp
    from Cons.IH[OF Cons.prems(1) p2 p3]
    obtain out where o: "autokey_decrypt_loop key (enumerate (Suc n) cs) (result @ [c]) ti
        = Inr ((result @ [c]) @ out)" "list_all2 char_preserved cs out" by blast
    show ?thesis using False o
      by (intro exI[of _ "c # out"]) (simp add: char_preserved_nonalpha)
  next
    case True
    show ?thesis
    proof (cases "n < length key")
      case lt: True
      define d where "d = autokey_decrypt_char c (py_ord (upper (key ! n)) - ord_A)"
      have p2: "length (result @ [d]) = Suc n" using Cons.prems(2) by simp
      from Cons.IH[OF Cons.prems(1) p2 p3]
      obtain out where o: "autokey_decrypt_loop key (enumerate (Suc n) cs) (result @ [d]) ti
        = Inr ((result @ [d]) @ out)" "list_all2 char_preserved cs out" by blast
      have "char_preserved c d" unfolding d_def by (rule autokey_dec_char_preserved[OF True])
      then show ?thesis using True lt o
        by (intro exI[of _ "d # out"]) (simp add: d_def)
    next
      case ge: False
      have ti: "ti < length result" using Cons.prems ge by (cases key) auto
      define d where "d = autokey_decrypt_char c (py_ord (upper (result ! ti)) - ord_A)"
      have p2: "length (result @ [d]) = Suc n" using Cons.prems(2) by simp
      have p3': "(ti + 1) + length key \<le> max (length key) (Suc n)" using Cons.prems(3) ge by linarith
      from Cons.IH[OF Cons.prems(1) p2 p3']
      obtain out where o: "autokey_decrypt_loop key (enumerate (Suc n) cs) (result @ [d]) (ti + 1)
        = Inr ((result @ [d]) @ out)" "list_all2 char_preserved cs out" by blast
      have "char_preserved c d" unfolding d_def by (rule autokey_dec_char_preserved[OF True])
      then show ?thesis using True ge ti o
        by (intro exI[of _ "d # out"]) (simp add: d_def)
    qed
  qed
qed

lemma autokey_decrypt_ok:
  assumes "priming_key \<noteq> []"
  shows "\<exists>out. autokey_decrypt msg priming_key = Inr out \<and> preserved_list msg out"
proof -
  have k: "map upper priming_key \<noteq> []" using assms by simp
  have "\<exists>out. autokey_decrypt_loop (map upper priming_key) (enumerate 0 msg) [] 0 = Inr ([] @ out)
          \<and> list_all2 char_preserved msg out"
    by (rule autokey_decrypt_loop_ok[OF k]) simp_all
  then show ?thesis
    unfolding autokey_decrypt_def preserved_list_def by (simp add: enumerate_eq_zip)
qed

lemma august_encrypt_loop_Cons:
  "august_encrypt_loop (c # cs) shift =
     caesar_encrypt_char shift c # august_encrypt_loop cs (if isalpha c then shift + 1 else shift)"
  by (simp add: caesar_encrypt_char_def Let_def)

lemma august_decrypt_loop_Cons:
  "august_decrypt_loop (c # cs) shift =
     caesar_encrypt_char (- shift) c # august_decrypt_loop cs (if isalpha c then shift + 1 else shift)"
  by (simp add: caesar_encrypt_char_def Let_def)

lemma august_encrypt_loop_ok: "list_all2 char_preserved msg (august_encrypt_loop msg shift)"
proof (induction msg arbitrary: shift)
  case Nil show ?case by simp
next
  case (Cons c cs)
  show ?case unfolding august_encrypt_loop_Cons
    by (simp only: list_all2_Cons caesar_char_preserved Cons simp_thms)
qed

lemma august_decrypt_loop_ok: "list_all2 char_preserved msg (august_decrypt_loop msg shift)"
proof (induction msg arbitrary: shift)
  case Nil show ?case by simp
next
  case (Cons c cs)
  show ?case unfolding august_decrypt_loop_Cons
    by (simp only: list_all2_Cons caesar_char_preserved Cons simp_thms)
qed

lemma affine_gcd_26_1: "affine_gcd a 26 = 1 \<Longrightarrow> \<exists>v. mod_inverse a 26 = Inr v"
  unfolding mod_inverse_def by (simp split: prod.splits)

lemma affine_gcd_eq_gcd: "0 < b \<Longrightarrow> affine_gcd a b = gcd a b"
proof (induction a b rule: affine_gcd.induct)
  case (1 a b)
  have step: "affine_gcd a b = affine_gcd b (a mod b)"
    using "1.prems" by (subst affine_gcd.simps) simp
  show ?case
  proof (cases "a mod b = 0")
    case True
    have "affine_gcd b (a mod b) = b" unfolding True by (subst affine_gcd.simps) simp
    moreover have "gcd a b = b" using True "1.prems" by (metis gcd_red_int gcd_0_int abs_of_pos)
    ultimately show ?thesis using step by simp
  next
    case False
    then have "0 < a mod b" using "1.prems" by (simp add: less_le)
    then have "affine_gcd b (a mod b) = gcd b (a mod b)" using "1.IH" "1.prems" by simp
    then show ?thesis using step by (metis gcd_red_int)
  qed
qed

lemma beaufort_prepare_key_loop_cong:
  "list_all2 char_preserved t c \<Longrightarrow>
   beaufort_prepare_key_loop key c i = beaufort_prepare_key_loop key t i"
proof (induction t arbitrary: c i)
  case Nil then show ?case by simp
next
  case (Cons x xs)
  then obtain y ys where c: "c = y # ys" "char_preserved x y" "list_all2 char_preserved xs ys"
    by (cases c) auto
  have h: "isalpha y = isalpha x" "\<not> isalpha x \<Longrightarrow> y = x"
    using c(2) by (auto simp: char_preserved_def split: if_splits)
  show ?case unfolding c(1) using h Cons.IH[OF c(3)] by (cases "isalpha x") simp_all
qed

lemma beaufort_zip_invol:
  "length ks = length t \<Longrightarrow>
   map (\<lambda>(c, k). beaufort_char c k) (zip (map (\<lambda>(c, k). beaufort_char c k) (zip t ks)) ks) = t"
proof (induction t arbitrary: ks)
  case Nil then show ?case by simp
next
  case (Cons x xs)
  then show ?case by (cases ks) (auto simp: beaufort_char_invol)
qed

lemma beaufort_self_inverse_aux:
  assumes "key \<noteq> []"
  shows "\<exists>c. beaufort t key = Inr c \<and> beaufort c key = Inr t"
proof -
  from assms have "map upper key \<noteq> []" by simp
  from beaufort_prepare_key_loop_ok[OF this, of t 0]
  obtain ks where ks: "beaufort_prepare_key t key = Inr ks" "length ks = length t"
    unfolding beaufort_prepare_key_def by blast
  define c where "c = map (\<lambda>(c, k). beaufort_char c k) (zip t ks)"
  have b1: "beaufort t key = Inr c" unfolding beaufort_def ks c_def by simp
  have "preserved_list t c" unfolding c_def
    using preserved_list_zip[of t ks beaufort_char] ks(2) by (simp add: beaufort_char_preserved)
  then have "beaufort_prepare_key c key = Inr ks"
    unfolding beaufort_prepare_key_def preserved_list_def
    using beaufort_prepare_key_loop_cong[of t c "map upper key" 0] ks(1)
    by (simp add: beaufort_prepare_key_def)
  then have "beaufort c key = Inr t"
    unfolding beaufort_def c_def using beaufort_zip_invol[OF ks(2)] by simp
  with b1 show ?thesis by blast
qed

lemma case_passthrough_iff: "preserved_list msg out = case_passthrough msg out"
  unfolding preserved_list_def case_passthrough_def list_all2_conv_all_nth char_preserved_def
  by auto



section \<open>Autokey round trip\<close>

text \<open>
  C1 (Autokey round trip, \<^verbatim>\<open>decrypt(encrypt(text, priming_key), priming_key) == text\<close>).
  The module's own demonstration input, \<^verbatim>\<open>"HELLO WORLD"\<close> with the priming key
  \<^verbatim>\<open>"KEY"\<close>, does not round-trip: \<^verbatim>\<open>encrypt\<close> takes the key for position \<open>i\<close> past the
  priming key from the text at \<open>i - len(priming_key)\<close>, counting every character, while
  \<^verbatim>\<open>decrypt\<close> advances its \<open>text_index\<close> on alphabetic characters only, so the two key
  streams part after the first non-alphabetic character.
\<close>

theorem autokey_demo_not_round_trip:
  "autokey_encrypt ''HELLO WORLD'' ''KEY'' = ''RIJSS HCKHR'' \<and>
   autokey_decrypt ''RIJSS HCKHR'' ''KEY'' = Inr ''HELLO WRWOV''"
  by code_simp

section \<open>Case and passthrough preservation of the substitution ciphers\<close>



section \<open>Beaufort applied twice\<close>




section \<open>Rail Fence: the fence as a multiset\<close>

lemma concat_update_mset:
  assumes "r < length fence" "i < length (fence ! r)"
  shows "mset (concat (fence[r := (fence ! r)[i := v]])) + {#fence ! r ! i#}
         = mset (concat fence) + {#v#}"
proof -
  let ?row = "fence ! r"
  have f: "fence = take r fence @ ?row # drop (Suc r) fence"
    using assms(1) by (simp add: id_take_nth_drop)
  have f': "fence[r := ?row[i := v]] = take r fence @ ?row[i := v] # drop (Suc r) fence"
    using assms(1) by (simp add: upd_conv_take_nth_drop)
  have row: "?row = take i ?row @ ?row ! i # drop (Suc i) ?row"
    using assms(2) by (simp add: id_take_nth_drop)
  have row': "?row[i := v] = take i ?row @ v # drop (Suc i) ?row"
    using assms(2) by (simp add: upd_conv_take_nth_drop)
  have "mset (concat (fence[r := ?row[i := v]])) + {#?row ! i#}
      = mset (concat (take r fence)) + mset (?row[i := v]) + mset (concat (drop (Suc r) fence)) + {#?row ! i#}"
    by (subst f') simp
  also have "\<dots> = mset (concat (take r fence)) + mset ?row + mset (concat (drop (Suc r) fence)) + {#v#}"
    by (subst row', subst (3) row) simp
  also have "\<dots> = mset (concat fence) + {#v#}"
    by (subst (4) f) simp
  finally show ?thesis .
qed


lemma py_index_in_range: "0 \<le> i \<Longrightarrow> i < int n \<Longrightarrow> py_index n i = Some (nat i)"
  by (simp add: py_index_def)

lemma create_fence_loop_mset:
  assumes "2 \<le> rails" "length fence = nat rails"
    and "\<forall>r<length fence. length (fence ! r) = n"
    and "0 \<le> rail" "rail < rails" "direction = 1 \<or> direction = - 1"
    and "distinct idxs" "\<forall>i\<in>set idxs. i < n"
    and "\<forall>r<length fence. \<forall>i\<in>set idxs. fence ! r ! i = newline"
  shows "\<exists>fence'. create_fence_loop msg rails idxs fence rail direction = Inr fence' \<and>
           filter_mset (\<lambda>c. c \<noteq> newline) (mset (concat fence'))
           = filter_mset (\<lambda>c. c \<noteq> newline) (mset (concat fence))
             + filter_mset (\<lambda>c. c \<noteq> newline) (mset (map (nth msg) idxs))"
  using assms
proof (induction idxs arbitrary: fence rail direction)
  case Nil
  then show ?case by simp
next
  case (Cons i rest)
  define r where "r = nat rail"
  have r: "r < length fence" using Cons.prems(2,4,5) by (simp add: r_def)
  have idx: "py_index (length fence) rail = Some r"
    unfolding r_def using Cons.prems(2,4,5) by (intro py_index_in_range) simp_all
  have i: "i < length (fence ! r)" using Cons.prems(3,8) r by simp
  define fence' where "fence' = fence[r := (fence ! r)[i := msg ! i]]"
  define direction' where
    "direction' = (if rail = 0 then 1 else if rail = rails - 1 then - 1 else direction)"
  have step: "create_fence_loop msg rails (i # rest) fence rail direction
              = create_fence_loop msg rails rest fence' (rail + direction') direction'"
    by (simp add: idx fence'_def direction'_def Let_def)
  have len: "length fence' = nat rails" using Cons.prems(2) by (simp add: fence'_def)
  have rows: "\<forall>q<length fence'. length (fence' ! q) = n"
    using Cons.prems(3) r by (auto simp: fence'_def nth_list_update)
  have dir: "direction' = 1 \<or> direction' = - 1"
    using Cons.prems(6) by (simp add: direction'_def)
  have lo: "0 \<le> rail + direction'"
    using Cons.prems(1,4,5,6) by (auto simp: direction'_def)
  have hi: "rail + direction' < rails"
    using Cons.prems(1,4,5,6) by (auto simp: direction'_def)
  have dist: "distinct rest" "i \<notin> set rest" using Cons.prems(7) by simp_all
  have bnd: "\<forall>j\<in>set rest. j < n" using Cons.prems(8) by simp
  have blank: "\<forall>q<length fence'. \<forall>j\<in>set rest. fence' ! q ! j = newline"
  proof (intro allI impI ballI)
    fix q j assume q: "q < length fence'" and j: "j \<in> set rest"
    have ji: "j \<noteq> i" using j dist(2) by auto
    have q': "q < length fence" using q by (simp add: fence'_def)
    have old: "fence ! q ! j = newline" using Cons.prems(9) q' j by simp
    show "fence' ! q ! j = newline"
      using old ji q' by (cases "q = r") (simp_all add: fence'_def nth_list_update)
  qed
  from Cons.IH[OF Cons.prems(1) len rows lo hi dir dist(1) bnd blank]
  obtain out where out: "create_fence_loop msg rails rest fence' (rail + direction') direction' = Inr out"
    "filter_mset (\<lambda>c. c \<noteq> newline) (mset (concat out))
       = filter_mset (\<lambda>c. c \<noteq> newline) (mset (concat fence'))
         + filter_mset (\<lambda>c. c \<noteq> newline) (mset (map (nth msg) rest))"
    by blast
  have cell: "fence ! r ! i = newline" using Cons.prems(9) r by simp
  have "mset (concat fence') + {#newline#} = mset (concat fence) + {#msg ! i#}"
    using concat_update_mset[OF r i, of "msg ! i"] by (simp add: fence'_def cell)
  then have "filter_mset (\<lambda>c. c \<noteq> newline) (mset (concat fence') + {#newline#})
           = filter_mset (\<lambda>c. c \<noteq> newline) (mset (concat fence) + {#msg ! i#})"
    by simp
  then have upd: "filter_mset (\<lambda>c. c \<noteq> newline) (mset (concat fence'))
           = filter_mset (\<lambda>c. c \<noteq> newline) (mset (concat fence))
             + filter_mset (\<lambda>c. c \<noteq> newline) {#msg ! i#}"
    by simp
  show ?case unfolding step using out upd by (intro exI[of _ out]) simp
qed

lemma concat_replicate_blank:
  "filter (\<lambda>c. c \<noteq> newline) (concat (replicate m (replicate n newline))) = []"
  by (induction m) simp_all

lemma railfence_encrypt_mset:
  assumes "2 \<le> rails" "rails \<le> int (length msg)"
  shows "\<exists>out. railfence_encrypt msg rails = Inr out \<and>
           mset out = mset (filter (\<lambda>c. c \<noteq> newline) msg)"
proof -
  let ?f0 = "replicate (nat rails) (replicate (length msg) newline)"
  have "\<exists>fence'. create_fence_loop msg rails [0 ..< length msg] ?f0 0 1 = Inr fence' \<and>
           filter_mset (\<lambda>c. c \<noteq> newline) (mset (concat fence'))
           = filter_mset (\<lambda>c. c \<noteq> newline) (mset (concat ?f0))
             + filter_mset (\<lambda>c. c \<noteq> newline) (mset (map (nth msg) [0 ..< length msg]))"
    using assms by (intro create_fence_loop_mset[where n = "length msg"]) simp_all
  then obtain fence' where f: "create_fence msg rails = Inr fence'"
    "filter_mset (\<lambda>c. c \<noteq> newline) (mset (concat fence'))
           = filter_mset (\<lambda>c. c \<noteq> newline) (mset (concat ?f0))
             + filter_mset (\<lambda>c. c \<noteq> newline) (mset msg)"
    unfolding create_fence_def by (auto simp: map_nth)
  have z: "filter_mset (\<lambda>c. c \<noteq> newline) (mset (concat ?f0)) = {#}"
    using concat_replicate_blank[of "nat rails" "length msg"]
    by (metis mset.simps(1) mset_filter)
  have "mset (filter (\<lambda>c. c \<noteq> newline) (concat fence')) = mset (filter (\<lambda>c. c \<noteq> newline) msg)"
    using f(2) z by (simp add: mset_filter)
  then show ?thesis unfolding railfence_encrypt_def using assms f(1) by simp
qed

lemma railfence_encrypt_no_newline:
  "railfence_encrypt msg rails = Inr out \<Longrightarrow> newline \<notin> set out"
  unfolding railfence_encrypt_def by (auto split: if_splits sum.splits)

section \<open>Rail Fence: what encrypt does to its input\<close>

text \<open>
  C3 as stated (the output is a rearrangement of the upper-cased, alphanumeric-filtered
  copy of the text, in upper case) fails: \<^verbatim>\<open>encrypt("a b", 2)\<close> is \<^verbatim>\<open>"ab "\<close>, which keeps
  the space and the lower case, while the filtered, case-folded copy is \<^verbatim>\<open>"AB"\<close>.
\<close>

theorem railfence_encrypt_keeps_case_and_space:
  "railfence_encrypt ''a b'' 2 = Inr ''ab '' \<and>
   canonical_form ''a b'' = ''AB'' \<and>
   mset ''ab '' \<noteq> mset (canonical_form ''a b'') \<and>
   list_ex islower ''ab ''"
proof -
  have e: "railfence_encrypt ''a b'' 2 = Inr ''ab ''" by code_simp
  have c: "canonical_form ''a b'' = ''AB''" by code_simp
  have l: "list_ex islower ''ab ''" by code_simp
  have "size (mset ''ab '') \<noteq> size (mset ''AB'')" by simp
  then have "mset ''ab '' \<noteq> mset ''AB''" by metis
  then show ?thesis using e c l by simp
qed

text \<open>
  C3, amended: for every text and every \<open>rails\<close> with \<open>2 \<le> rails \<le> len(text)\<close>,
  \<^verbatim>\<open>encrypt\<close> returns a rearrangement of the input text itself without its newline
  characters; no character is filtered out otherwise and none is case-folded.
\<close>

theorem railfence_encrypt_rearranges_input:
  "2 \<le> rails \<Longrightarrow> rails \<le> int (length msg) \<Longrightarrow>
   \<exists>out. railfence_encrypt msg rails = Inr out \<and>
         mset out = mset (filter (\<lambda>c. c \<noteq> newline) msg)"
  by (rule railfence_encrypt_mset)

theorem railfence_encrypt_rearranges_input_witness:
  "(2::int) \<le> 2 \<and> (2::int) \<le> int (length ''a b'') \<and>
   (\<exists>out. railfence_encrypt ''a b'' 2 = Inr out \<and>
         mset out = mset (filter (\<lambda>c. c \<noteq> newline) ''a b''))"
proof -
  have a: "(2::int) \<le> 2" by simp
  have b: "(2::int) \<le> int (length ''a b'')" by simp
  show ?thesis using railfence_encrypt_rearranges_input[OF a b] a b by blast
qed

text \<open>
  C10. For every text that contains a newline and every \<open>rails\<close> with
  \<open>2 \<le> rails \<le> len(text)\<close>, \<^verbatim>\<open>encrypt\<close> returns a text without any newline, strictly
  shorter than the input: the newline is the empty-cell sentinel of the fence and the
  read-out skips it.
\<close>

theorem railfence_encrypt_drops_newlines:
  "2 \<le> rails \<Longrightarrow> rails \<le> int (length msg) \<Longrightarrow> newline \<in> set msg \<Longrightarrow>
   \<exists>out. railfence_encrypt msg rails = Inr out \<and> newline \<notin> set out \<and>
         length out < length msg"
proof -
  assume r: "2 \<le> rails" "rails \<le> int (length msg)" and n: "newline \<in> set msg"
  from railfence_encrypt_mset[OF r] obtain out where
    out: "railfence_encrypt msg rails = Inr out"
      "mset out = mset (filter (\<lambda>c. c \<noteq> newline) msg)"
    by blast
  have "length out = length (filter (\<lambda>c. c \<noteq> newline) msg)"
    using out(2) by (rule mset_eq_length)
  also have "\<dots> < length msg" using n by (intro length_filter_less[of newline]) simp_all
  finally have "length out < length msg" .
  then show ?thesis using out(1) railfence_encrypt_no_newline[OF out(1)] by blast
qed

theorem railfence_encrypt_drops_newlines_witness:
  "(2::int) \<le> 2 \<and> (2::int) \<le> int (length [CHR ''a'', newline, CHR ''b'']) \<and>
   newline \<in> set [CHR ''a'', newline, CHR ''b''] \<and>
   (\<exists>out. railfence_encrypt [CHR ''a'', newline, CHR ''b''] 2 = Inr out \<and>
         newline \<notin> set out \<and> length out < length [CHR ''a'', newline, CHR ''b''])"
proof -
  have a: "(2::int) \<le> 2" by simp
  have b: "(2::int) \<le> int (length [CHR ''a'', newline, CHR ''b''])" by simp
  have c: "newline \<in> set [CHR ''a'', newline, CHR ''b'']" by simp
  show ?thesis using railfence_encrypt_drops_newlines[OF a b c] a b c by blast
qed

section \<open>ngram.py: the loops\<close>

lemma filter_isalpha_upper:
  "length (filter isalpha (map upper msg)) = length (filter isalpha msg)"
  by (induction msg) (simp_all add: isalpha_upper)

lemma index_of_coincidence_total_aux:
  "(length (filter isalpha msg) \<le> 1 \<longrightarrow> index_of_coincidence msg = Inr 0) \<and>
   (\<exists>q. index_of_coincidence msg = Inr q)"
proof -
  define n where "n = length (filter isalpha (map upper msg))"
  have n: "n = length (filter isalpha msg)" unfolding n_def by (rule filter_isalpha_upper)
  show ?thesis
  proof (cases "n \<le> 1")
    case True
    then have "index_of_coincidence msg = Inr 0"
      by (simp add: index_of_coincidence_def n_def)
    then show ?thesis by simp
  next
    case False
    then have "int n * (int n - 1) \<noteq> 0" by simp
    then have "\<exists>q. index_of_coincidence msg = Inr q"
      using False by (simp add: index_of_coincidence_def n_def py_truediv_def Let_def)
    then show ?thesis using False n by simp
  qed
qed

lemma upper_not_lower: "\<not> islower (upper c)"
  unfolding upper_def islower_def by (auto simp: py_ord_chr)

lemma isalpha_upper_isupper: "isalpha (upper c) \<Longrightarrow> isupper (upper c)"
  using upper_not_lower[of c] by (simp add: isalpha_def)

lemma set_dict_set: "e \<in> set (dict_set k v d) \<Longrightarrow> e = (k, v) \<or> e \<in> set d"
  by (induction d) (auto split: if_splits)

lemma py_slice_nonneg:
  "0 \<le> i \<Longrightarrow> 0 \<le> len \<Longrightarrow> i + len \<le> int (length xs) \<Longrightarrow>
   py_slice xs i (i + len) = take (nat len) (drop (nat i) xs)"
  by (auto simp: py_slice_def Let_def min_def)

lemma entry_ok_mono: "entry_ok tx len b e \<Longrightarrow> b \<le> b' \<Longrightarrow> entry_ok tx len b' e"
  unfolding entry_ok_def by (auto split: prod.splits)

lemma sequences_step_ok:
  assumes "0 \<le> len" "0 \<le> i" "i + len \<le> int (length tx)" "bound \<le> i"
    and "\<forall>e\<in>set sequences. entry_ok tx len bound e"
  shows "\<forall>e\<in>set (sequences_step tx len i sequences). entry_ok tx len (i + 1) e"
proof
  fix e assume e: "e \<in> set (sequences_step tx len i sequences)"
  define seq where "seq = py_slice tx i (i + len)"
  have seq: "seq = take (nat len) (drop (nat i) tx)"
    unfolding seq_def by (rule py_slice_nonneg[OF assms(2) assms(1) assms(3)])
  have len: "int (length seq) = len" using assms(1-3) by (simp add: seq)
  have sub: "set seq \<subseteq> set tx"
    unfolding seq by (meson set_take_subset set_drop_subset subset_trans)
  have old: "\<And>x. x \<in> set sequences \<Longrightarrow> entry_ok tx len (i + 1) x"
    using assms(4,5) entry_ok_mono[of tx len bound _ "i + 1"] by auto
  show "entry_ok tx len (i + 1) e"
  proof (cases "str_isalpha seq")
    case False
    then have "sequences_step tx len i sequences = sequences"
      by (simp add: sequences_step_def seq_def)
    then show ?thesis using e old by simp
  next
    case True
    show ?thesis
    proof (cases "dict_get sequences seq")
      case None
      then have "sequences_step tx len i sequences = dict_set seq [i] sequences"
        using True by (simp add: sequences_step_def seq_def Let_def)
      then have "e = (seq, [i]) \<or> e \<in> set sequences" using e set_dict_set by metis
      then show ?thesis using old len sub True by (auto simp: entry_ok_def)
    next
      case (Some pos)
      then have "sequences_step tx len i sequences = dict_set seq (pos @ [i]) sequences"
        using True by (simp add: sequences_step_def seq_def Let_def)
      then have c: "e = (seq, pos @ [i]) \<or> e \<in> set sequences" using e set_dict_set by metis
      have "(seq, pos) \<in> set sequences" using Some by (simp add: dict_get_def map_of_SomeD)
      then have p: "entry_ok tx len bound (seq, pos)" using assms(5) by blast
      have "entry_ok tx len (i + 1) (seq, pos @ [i])"
        using p assms(4) by (auto simp: entry_ok_def sorted_wrt_append)
      then show ?thesis using c old by blast
    qed
  qed
qed

lemma fold_sequences_step_ok:
  assumes "0 \<le> len" "sorted_wrt (<) idxs"
    and "\<forall>i\<in>set idxs. 0 \<le> i \<and> i + len \<le> int (length tx) \<and> bound \<le> i"
    and "\<forall>e\<in>set sequences. entry_ok tx len bound e"
  shows "\<forall>e\<in>set (fold (sequences_step tx len) idxs sequences). \<exists>b. entry_ok tx len b e"
  using assms(2-)
proof (induction idxs arbitrary: sequences bound)
  case Nil
  then show ?case by auto
next
  case (Cons i rest)
  have s: "\<forall>e\<in>set (sequences_step tx len i sequences). entry_ok tx len (i + 1) e"
    using Cons.prems by (intro sequences_step_ok[OF assms(1), where bound = bound]) auto
  have r: "\<forall>j\<in>set rest. 0 \<le> j \<and> j + len \<le> int (length tx) \<and> i + 1 \<le> j"
    using Cons.prems(1,2) by auto
  have "sorted_wrt (<) rest" using Cons.prems(1) by simp
  from Cons.IH[OF this r s] show ?case by simp
qed

lemma collect_sequences_ok:
  assumes "0 \<le> len"
  shows "\<forall>e\<in>set (collect_sequences tx len). \<exists>b. entry_ok tx len b e"
  unfolding collect_sequences_def
proof (rule fold_sequences_step_ok[OF assms, where bound = 0])
  show "sorted_wrt (<) [0 .. int (length tx) - len]"
    by (simp add: strict_sorted_iff)
  show "\<forall>i\<in>set [0 .. int (length tx) - len]. 0 \<le> i \<and> i + len \<le> int (length tx) \<and> 0 \<le> i"
    by auto
  show "\<forall>e\<in>set []. entry_ok tx len 0 e" by simp
qed

lemma dict_update_ok:
  "\<forall>e\<in>set d. P e \<Longrightarrow> \<forall>e\<in>set new. P e \<Longrightarrow> \<forall>e\<in>set (dict_update d new). P e"
  unfolding dict_update_def
proof (induction new arbitrary: d)
  case Nil then show ?case by simp
next
  case (Cons x xs)
  obtain k v where x: "x = (k, v)" by (cases x)
  have "\<forall>e\<in>set (dict_set k v d). P e" using Cons.prems x set_dict_set[of _ k v d] by auto
  then show ?case using Cons.IH[of "dict_set k v d"] Cons.prems(2) x by simp
qed

lemma find_repeated_sequences_ok_aux:
  assumes "0 \<le> min_length"
  shows "\<forall>e\<in>set (find_repeated_sequences msg min_length max_length).
           repeated_ok min_length max_length e"
proof -
  define tx where "tx = map upper msg"
  have up: "\<And>c. c \<in> set tx \<Longrightarrow> isalpha c \<Longrightarrow> isupper c"
    unfolding tx_def using isalpha_upper_isupper by auto
  have new: "\<forall>e\<in>set (filter (\<lambda>(seq, pos). length pos > 1) (collect_sequences tx len)).
               repeated_ok min_length max_length e"
    if "min_length \<le> len" "len \<le> max_length" for len
  proof
    fix e assume e: "e \<in> set (filter (\<lambda>(seq, pos). length pos > 1) (collect_sequences tx len))"
    obtain k ps where kp: "e = (k, ps)" by (cases e)
    have l: "0 \<le> len" using assms that by simp
    from e kp collect_sequences_ok[OF l, of tx] obtain b where
      b: "entry_ok tx len b (k, ps)" and p: "length ps > 1" by auto
    have "list_all (\<lambda>c. isalpha c \<and> isupper c) k"
      using b up by (auto simp: entry_ok_def str_isalpha_def list_all_iff)
    then show "repeated_ok min_length max_length e"
      using b p that by (auto simp: kp repeated_ok_def entry_ok_def str_isalpha_def)
  qed
  have "\<forall>e\<in>set (fold (\<lambda>len repeated_sequences.
                 dict_update repeated_sequences
                   (filter (\<lambda>(seq, pos). length pos > 1) (collect_sequences tx len)))
              lens acc). repeated_ok min_length max_length e"
    if "\<forall>len\<in>set lens. min_length \<le> len \<and> len \<le> max_length"
       "\<forall>e\<in>set acc. repeated_ok min_length max_length e" for lens acc
    using that
  proof (induction lens arbitrary: acc)
    case Nil then show ?case by simp
  next
    case (Cons len rest)
    have "\<forall>e\<in>set (dict_update acc
             (filter (\<lambda>(seq, pos). length pos > 1) (collect_sequences tx len))).
            repeated_ok min_length max_length e"
      using Cons.prems by (intro dict_update_ok new) auto
    then show ?case using Cons.IH Cons.prems(1) by simp
  qed
  from this[of "[min_length .. max_length]" "[]"] show ?thesis
    unfolding find_repeated_sequences_def tx_def Let_def by simp
qed

section \<open>Index of coincidence at the degenerate boundary\<close>



section \<open>Repeated sequences\<close>




section \<open>myszkowski.py: the column order and the fill loops\<close>

lemma dict_set_present_mset:
  "dict_get d k = Some l \<Longrightarrow>
   mset (concat (map snd (dict_set k (l @ [i]) d))) = mset (concat (map snd d)) + {#i#}"
  unfolding dict_get_def by (induction d) (auto split: if_splits)

lemma dict_set_absent_mset:
  "dict_get d k = None \<Longrightarrow>
   mset (concat (map snd (dict_set k [i] d))) = mset (concat (map snd d)) + {#i#}"
  unfolding dict_get_def by (induction d) (auto split: if_splits)

lemma column_groups_step_mset:
  "mset (concat (map snd (column_groups_step (i, c) groups)))
   = mset (concat (map snd groups)) + {#i#}"
  unfolding column_groups_step_def
  by (cases "dict_get groups c") (simp_all add: dict_set_present_mset dict_set_absent_mset)

lemma fold_column_groups_step_mset:
  "mset (concat (map snd (fold column_groups_step xs groups)))
   = mset (concat (map snd groups)) + mset (map fst xs)"
proof (induction xs arbitrary: groups)
  case Nil show ?case by simp
next
  case (Cons x xs)
  obtain i c where x: "x = (i, c)" by (cases x)
  show ?case by (simp add: Cons x column_groups_step_mset)
qed

lemma mset_concat_cong: "mset xs = mset ys \<Longrightarrow> mset (concat xs) = mset (concat ys)"
proof -
  assume a: "mset xs = mset ys"
  have "mset (concat zs) = sum_mset (image_mset mset (mset zs))" for zs :: "'a list list"
    by (induction zs) simp_all
  then show ?thesis using a by simp
qed

lemma get_column_groups_mset:
  "mset (concat (map snd (get_column_groups key))) = mset [0 ..< length key]"
proof -
  let ?g = "fold column_groups_step (enumerate 0 key) []"
  have "mset (map snd (sort_key fst ?g)) = mset (map snd ?g)" by simp
  then have "mset (concat (map snd (sort_key fst ?g))) = mset (concat (map snd ?g))"
    by (rule mset_concat_cong)
  also have "\<dots> = mset (map fst (enumerate 0 key))"
    by (simp add: fold_column_groups_step_mset)
  also have "\<dots> = mset [0 ..< length key]" by (simp add: map_fst_enumerate)
  finally show ?thesis unfolding get_column_groups_def .
qed

lemma fill_columns_append:
  "fill_columns msg rows (xs @ ys) grid index =
     (case fill_columns msg rows xs grid index of
        Inl e \<Rightarrow> Inl e
      | Inr (grid', index') \<Rightarrow> fill_columns msg rows ys grid' index')"
  by (induction xs arbitrary: grid index) (auto split: sum.splits)

lemma fill_groups_flat:
  "fill_groups msg rows groups grid index =
   fill_columns msg rows (concat (map snd groups)) grid index"
proof (induction groups arbitrary: grid index)
  case Nil show ?case by simp
next
  case (Cons g gs)
  obtain letter columns where g: "g = (letter, columns)" by (cases g)
  show ?case by (auto simp: g fill_columns_append Cons split: sum.splits)
qed

lemma fill_rows_ok:
  assumes "grid_shape g rows cols" "col < cols" "\<forall>r\<in>set rs. r < rows"
    and "index + length rs \<le> length msg"
  shows "\<exists>g'. fill_rows msg col rs g index = Inr (g', index + length rs) \<and>
           grid_shape g' rows cols \<and>
           (\<forall>r<rows. \<forall>c<cols. length (g' ! r ! c)
                = (if c = col \<and> r \<in> set rs then 1 else length (g ! r ! c)))"
  using assms
proof (induction rs arbitrary: g index)
  case Nil
  then show ?case by simp
next
  case (Cons row rest)
  define g1 where "g1 = g[row := (g ! row)[col := [msg ! index]]]"
  have row: "row < rows" using Cons.prems(3) by simp
  have ok: "index < length msg" "row < length g" "col < length (g ! row)"
    using Cons.prems row by (auto simp: grid_shape_def)
  have step: "fill_rows msg col (row # rest) g index = fill_rows msg col rest g1 (index + 1)"
    using ok by (simp add: g1_def)
  have sh: "grid_shape g1 rows cols"
    using Cons.prems(1) row by (auto simp: grid_shape_def g1_def nth_list_update)
  have cells: "\<forall>r<rows. \<forall>c<cols. length (g1 ! r ! c)
       = (if c = col \<and> r = row then 1 else length (g ! r ! c))"
  proof (intro allI impI)
    fix r c assume r: "r < rows" and c: "c < cols"
    show "length (g1 ! r ! c) = (if c = col \<and> r = row then 1 else length (g ! r ! c))"
    proof (cases "r = row")
      case True
      then show ?thesis using ok by (simp add: g1_def nth_list_update)
    next
      case False
      then show ?thesis using r Cons.prems(1) by (simp add: g1_def grid_shape_def)
    qed
  qed
  have r: "\<forall>r\<in>set rest. r < rows" using Cons.prems(3) by simp
  have i: "(index + 1) + length rest \<le> length msg" using Cons.prems(4) by simp
  from Cons.IH[OF sh Cons.prems(2) r i] obtain g' where
    g': "fill_rows msg col rest g1 (index + 1) = Inr (g', index + 1 + length rest)"
      "grid_shape g' rows cols"
      "\<forall>r<rows. \<forall>c<cols. length (g' ! r ! c)
          = (if c = col \<and> r \<in> set rest then 1 else length (g1 ! r ! c))"
    by blast
  have "\<forall>r<rows. \<forall>c<cols. length (g' ! r ! c)
          = (if c = col \<and> r \<in> set (row # rest) then 1 else length (g ! r ! c))"
    using g'(3) cells by auto
  then show ?case unfolding step using g'(1,2) by (intro exI[of _ g']) simp
qed

lemma fill_columns_ok:
  assumes "grid_shape g rows cols" "\<forall>c\<in>set cs. c < cols"
    and "index + rows * length cs \<le> length msg"
  shows "\<exists>g'. fill_columns msg rows cs g index = Inr (g', index + rows * length cs) \<and>
           grid_shape g' rows cols \<and>
           (\<forall>r<rows. \<forall>c<cols. length (g' ! r ! c)
                = (if c \<in> set cs then 1 else length (g ! r ! c)))"
  using assms
proof (induction cs arbitrary: g index)
  case Nil
  then show ?case by simp
next
  case (Cons col rest)
  have c: "col < cols" using Cons.prems(2) by simp
  have i: "index + length [0 ..< rows] \<le> length msg" using Cons.prems(3) by simp
  from fill_rows_ok[OF Cons.prems(1) c _ i] obtain g1 where
    g1: "fill_rows msg col [0 ..< rows] g index = Inr (g1, index + rows)"
      "grid_shape g1 rows cols"
      "\<forall>r<rows. \<forall>c<cols. length (g1 ! r ! c)
          = (if c = col \<and> r \<in> set [0 ..< rows] then 1 else length (g ! r ! c))"
    by auto
  have r: "\<forall>c\<in>set rest. c < cols" using Cons.prems(2) by simp
  have i2: "(index + rows) + rows * length rest \<le> length msg" using Cons.prems(3) by simp
  from Cons.IH[OF g1(2) r i2] obtain g' where
    g': "fill_columns msg rows rest g1 (index + rows) = Inr (g', index + rows + rows * length rest)"
      "grid_shape g' rows cols"
      "\<forall>r<rows. \<forall>c<cols. length (g' ! r ! c)
          = (if c \<in> set rest then 1 else length (g1 ! r ! c))"
    by blast
  have "\<forall>r<rows. \<forall>c<cols. length (g' ! r ! c)
          = (if c \<in> set (col # rest) then 1 else length (g ! r ! c))"
    using g'(3) g1(3) by auto
  then show ?case using g1(1) g'(1,2) by (intro exI[of _ g']) simp
qed

lemma length_concat_uniform:
  "\<forall>x\<in>set xs. length x = n \<Longrightarrow> length (concat xs) = n * length xs"
  by (induction xs) simp_all

lemma filled_grid_length:
  assumes "grid_shape g rows cols" "\<forall>r<rows. \<forall>c<cols. length (g ! r ! c) = 1"
  shows "length (concat (concat g)) = rows * cols"
proof -
  have rowlen: "\<forall>x\<in>set g. length x = cols"
    using assms(1) by (auto simp: grid_shape_def in_set_conv_nth)
  have "\<forall>s\<in>set (concat g). length s = 1"
  proof
    fix s assume "s \<in> set (concat g)"
    then obtain x where x: "x \<in> set g" "s \<in> set x" by auto
    then obtain r where r: "r < length g" "x = g ! r" by (auto simp: in_set_conv_nth)
    from x(2) obtain c where c: "c < length x" "s = x ! c" by (auto simp: in_set_conv_nth)
    show "length s = 1" using assms r c by (auto simp: grid_shape_def)
  qed
  then have "length (concat (concat g)) = 1 * length (concat g)"
    by (rule length_concat_uniform)
  also have "length (concat g) = cols * length g" using rowlen by (rule length_concat_uniform)
  finally show ?thesis using assms(1) by (simp add: grid_shape_def mult.commute)
qed

lemma myszkowski_decrypt_truncates:
  assumes "key \<noteq> []"
  shows "\<exists>out. myszkowski_decrypt msg key = Inr out \<and>
           length out = (length msg div length key) * length key"
proof -
  define cols where "cols = length key"
  define rows where "rows = length msg div cols"
  define cs where "cs = concat (map snd (get_column_groups key))"
  define g0 :: "string list list" where "g0 = replicate rows (replicate cols [])"
  have m: "mset cs = mset [0 ..< cols]" unfolding cs_def cols_def by (rule get_column_groups_mset)
  have set_cs: "set cs = {0 ..< cols}" using m by (metis mset_eq_setD set_upt)
  have len_cs: "length cs = cols" using m by (metis mset_eq_length length_upt diff_zero)
  have sh: "grid_shape g0 rows cols" by (simp add: grid_shape_def g0_def)
  have b: "\<forall>c\<in>set cs. c < cols" using set_cs by simp
  have i: "0 + rows * length cs \<le> length msg" by (simp add: len_cs rows_def)
  from fill_columns_ok[OF sh b i] obtain g' where
    g': "fill_columns msg rows cs g0 0 = Inr (g', 0 + rows * length cs)"
      "grid_shape g' rows cols"
      "\<forall>r<rows. \<forall>c<cols. length (g' ! r ! c) = (if c \<in> set cs then 1 else length (g0 ! r ! c))"
    by blast
  have "\<forall>r<rows. \<forall>c<cols. length (g' ! r ! c) = 1" using g'(3) set_cs by simp
  then have l: "length (concat (concat g')) = rows * cols" by (rule filled_grid_length[OF g'(2)])
  have nz: "length key \<noteq> 0" using assms by simp
  have "fill_groups msg (length msg div length key) (get_column_groups key)
          (replicate (length msg div length key) (replicate (length key) [])) 0
        = Inr (g', rows * length cs)"
    using g'(1) by (simp add: fill_groups_flat cols_def rows_def cs_def g0_def)
  then have "myszkowski_decrypt msg key = Inr (concat (concat g'))"
    using nz by (simp add: myszkowski_decrypt_def Let_def)
  then show ?thesis using l by (simp add: rows_def cols_def)
qed

section \<open>Myszkowski decrypt and the length of the ciphertext\<close>




section \<open>route.py: the spiral, the snake and the diagonals\<close>

lemma spiral_loop_step:
  "t \<le> b \<Longrightarrow> l \<le> r \<Longrightarrow>
   spiral_loop t b l r coords =
     spiral_loop (t + 1) (if t + 1 \<le> b then b - 1 else b)
       (if l \<le> r - 1 then l + 1 else l) (r - 1) (coords @ ring t b l r)"
  by (subst spiral_loop.simps) (simp add: ring_def Let_def)

lemma spiral_loop_stop:
  assumes "\<not> (t \<le> b \<and> l \<le> r)"
  shows "spiral_loop t b l r coords = coords"
proof -
  have c: "(t \<le> b \<and> l \<le> r) = False" using assms by simp
  show ?thesis by (subst spiral_loop.simps) (simp only: c if_False)
qed

lemma pair_image_left: "(a, c) \<in> Pair t ` S \<longleftrightarrow> a = t \<and> c \<in> S"
  by auto

lemma pair_image_right: "(a, c) \<in> (\<lambda>x. (x, r)) ` S \<longleftrightarrow> c = r \<and> a \<in> S"
  by blast

lemma ring_distinct: "t \<le> b \<Longrightarrow> l \<le> r \<Longrightarrow> distinct (ring t b l r)"
  unfolding ring_def by (auto simp: distinct_map inj_on_def)

lemma ring_set:
  "t \<le> b \<Longrightarrow> l \<le> r \<Longrightarrow>
   set (ring t b l r) \<union>
     {t + 1 .. (if t + 1 \<le> b then b - 1 else b)} \<times> {(if l \<le> r - 1 then l + 1 else l) .. r - 1}
   = {t .. b} \<times> {l .. r}"
  unfolding ring_def
  by (auto simp: pair_image_left pair_image_right split: if_splits)

lemma ring_disjoint:
  "t \<le> b \<Longrightarrow> l \<le> r \<Longrightarrow>
   set (ring t b l r) \<inter>
     {t + 1 .. (if t + 1 \<le> b then b - 1 else b)} \<times> {(if l \<le> r - 1 then l + 1 else l) .. r - 1}
   = {}"
  unfolding ring_def
  by (auto simp: pair_image_left pair_image_right split: if_splits)

lemma spiral_loop_correct:
  "distinct coords \<Longrightarrow> set coords \<inter> {t .. b} \<times> {l .. r} = {} \<Longrightarrow>
   distinct (spiral_loop t b l r coords) \<and>
   set (spiral_loop t b l r coords) = set coords \<union> {t .. b} \<times> {l .. r}"
proof (induction "nat (b - t + 1)" arbitrary: t b l r coords rule: less_induct)
  case less
  show ?case
  proof (cases "t \<le> b \<and> l \<le> r")
    case False
    then have e: "{t .. b} \<times> {l .. r} = {}" by auto
    show ?thesis unfolding spiral_loop_stop[OF False] e using less.prems(1) by simp
  next
    case True
    then have tb: "t \<le> b" and lr: "l \<le> r" by simp_all
    define b' where "b' = (if t + 1 \<le> b then b - 1 else b)"
    define l' where "l' = (if l \<le> r - 1 then l + 1 else l)"
    define coords' where "coords' = coords @ ring t b l r"
    have step: "spiral_loop t b l r coords = spiral_loop (t + 1) b' l' (r - 1) coords'"
      unfolding b'_def l'_def coords'_def by (rule spiral_loop_step[OF tb lr])
    have un: "set (ring t b l r) \<union> {t + 1 .. b'} \<times> {l' .. r - 1} = {t .. b} \<times> {l .. r}"
      unfolding b'_def l'_def by (rule ring_set[OF tb lr])
    have dj: "set (ring t b l r) \<inter> {t + 1 .. b'} \<times> {l' .. r - 1} = {}"
      unfolding b'_def l'_def by (rule ring_disjoint[OF tb lr])
    have sub: "set (ring t b l r) \<subseteq> {t .. b} \<times> {l .. r}" using un by blast
    have sub': "{t + 1 .. b'} \<times> {l' .. r - 1} \<subseteq> {t .. b} \<times> {l .. r}" using un by blast
    have d': "distinct coords'"
      unfolding coords'_def using less.prems ring_distinct[OF tb lr] sub by auto
    have i': "set coords' \<inter> {t + 1 .. b'} \<times> {l' .. r - 1} = {}"
      unfolding coords'_def using less.prems(2) dj sub' by auto
    have m: "nat (b' - (t + 1) + 1) < nat (b - t + 1)" using tb by (simp add: b'_def)
    from less.hyps[OF m d' i']
    have "distinct (spiral_loop (t + 1) b' l' (r - 1) coords') \<and>
          set (spiral_loop (t + 1) b' l' (r - 1) coords')
            = set coords' \<union> {t + 1 .. b'} \<times> {l' .. r - 1}" .
    then show ?thesis unfolding step using un by (auto simp: coords'_def)
  qed
qed

lemma spiral_inward_perm:
  "distinct (spiral_inward rows cols) \<and> set (spiral_inward rows cols) = grid_cells rows cols"
  unfolding spiral_inward_def grid_cells_def
  using spiral_loop_correct[of "[]" 0 "rows - 1" 0 "cols - 1"] by simp

lemma spiral_outward_perm:
  "distinct (spiral_outward rows cols) \<and> set (spiral_outward rows cols) = grid_cells rows cols"
  unfolding spiral_outward_def using spiral_inward_perm[of rows cols] by simp

lemma distinct_concat_keyed:
  assumes "distinct idxs" "\<forall>i\<in>set idxs. distinct (f i)"
    and "\<forall>i\<in>set idxs. \<forall>x\<in>set (f i). key x = i"
  shows "distinct (concat (map f idxs))"
  using assms
proof (induction idxs)
  case Nil show ?case by simp
next
  case (Cons i rest)
  have "set (f i) \<inter> set (concat (map f rest)) = {}"
  proof (rule ccontr)
    assume "set (f i) \<inter> set (concat (map f rest)) \<noteq> {}"
    then obtain x j where x: "x \<in> set (f i)" "j \<in> set rest" "x \<in> set (f j)" by auto
    then have "key x = i" "key x = j" using Cons.prems(3) by auto
    then show False using x(2) Cons.prems(1) by auto
  qed
  then show ?case using Cons by simp
qed

lemma snake_row_set:
  "set (if i mod 2 = 0 then map (\<lambda>j. (i, j)) [0 .. cols - 1]
        else map (\<lambda>j. (i, j)) (rev [0 .. cols - 1])) = {i} \<times> {0 .. cols - 1}"
  by auto

lemma snake_pattern_perm:
  "distinct (snake_pattern rows cols) \<and> set (snake_pattern rows cols) = grid_cells rows cols"
proof
  show "distinct (snake_pattern rows cols)"
    unfolding snake_pattern_def
    by (rule distinct_concat_keyed[where key = fst]) (auto simp: distinct_map inj_on_def)
  have "set (snake_pattern rows cols) = (\<Union>i\<in>{0 .. rows - 1}. {i} \<times> {0 .. cols - 1})"
    unfolding snake_pattern_def set_concat set_map image_image snake_row_set by simp
  also have "\<dots> = grid_cells rows cols" unfolding grid_cells_def by auto
  finally show "set (snake_pattern rows cols) = grid_cells rows cols" .
qed

lemma diagonal_pattern_perm:
  "distinct (diagonal_pattern rows cols) \<and>
   set (diagonal_pattern rows cols) = grid_cells rows cols"
proof
  define f where
    "f = (\<lambda>s i. let j = s - i in if 0 \<le> j \<and> j < cols then [(i, j)] else [])"
  have d: "diagonal_pattern rows cols
           = concat (map (\<lambda>s. concat (map (f s) [0 .. rows - 1])) [0 .. rows + cols - 2])"
    unfolding diagonal_pattern_def f_def by (rule refl)
  have fmem: "x \<in> set (f s i) \<longleftrightarrow> x = (i, s - i) \<and> 0 \<le> s - i \<and> s - i < cols" for x s i
    by (simp add: f_def Let_def)
  have fdist: "distinct (f s i)" for s i
    by (simp add: f_def Let_def)
  have inner: "distinct (concat (map (f s) [0 .. rows - 1]))" for s
  proof (rule distinct_concat_keyed[where key = fst])
    show "distinct [0 .. rows - 1]" by simp
    show "\<forall>i\<in>set [0 .. rows - 1]. distinct (f s i)" using fdist by blast
    show "\<forall>i\<in>set [0 .. rows - 1]. \<forall>x\<in>set (f s i). fst x = i" by (simp add: fmem)
  qed
  have imem: "x \<in> set (concat (map (f s) [0 .. rows - 1]))
              \<longleftrightarrow> (\<exists>i\<in>{0 .. rows - 1}. x \<in> set (f s i))" for x s
    by (simp only: set_concat set_map set_upto) blast
  have omem: "x \<in> set (diagonal_pattern rows cols)
              \<longleftrightarrow> (\<exists>s\<in>{0 .. rows + cols - 2}. \<exists>i\<in>{0 .. rows - 1}. x \<in> set (f s i))" for x
  proof -
    have "x \<in> set (diagonal_pattern rows cols)
          \<longleftrightarrow> (\<exists>s\<in>{0 .. rows + cols - 2}. x \<in> set (concat (map (f s) [0 .. rows - 1])))"
      unfolding d by auto
    then show ?thesis unfolding imem .
  qed
  show "distinct (diagonal_pattern rows cols)"
    unfolding d
  proof (rule distinct_concat_keyed[where key = "\<lambda>x. fst x + snd x"])
    show "distinct [0 .. rows + cols - 2]" by simp
    show "\<forall>s\<in>set [0 .. rows + cols - 2]. distinct (concat (map (f s) [0 .. rows - 1]))"
      using inner by blast
    show "\<forall>s\<in>set [0 .. rows + cols - 2].
           \<forall>x\<in>set (concat (map (f s) [0 .. rows - 1])). fst x + snd x = s"
      unfolding imem by (auto simp: fmem)
  qed
  show "set (diagonal_pattern rows cols) = grid_cells rows cols"
  proof (intro set_eqI iffI)
    fix x assume "x \<in> set (diagonal_pattern rows cols)"
    then obtain s i where "i \<in> {0 .. rows - 1}" "x = (i, s - i)" "0 \<le> s - i" "s - i < cols"
      unfolding omem fmem by blast
    then show "x \<in> grid_cells rows cols" by (simp add: grid_cells_def)
  next
    fix x assume x: "x \<in> grid_cells rows cols"
    obtain a c where ac: "x = (a, c)" by (cases x)
    have r: "0 \<le> a" "a \<le> rows - 1" "0 \<le> c" "c \<le> cols - 1"
      using x by (auto simp: ac grid_cells_def)
    have s: "a + c \<in> {0 .. rows + cols - 2}" using r by simp
    have i: "a \<in> {0 .. rows - 1}" using r by simp
    have "x \<in> set (f (a + c) a)" using r by (simp add: ac fmem)
    then show "x \<in> set (diagonal_pattern rows cols)"
      unfolding omem using s i by blast
  qed
qed

section \<open>Route patterns cover the grid exactly once\<close>

text \<open>
  C4. For every \<open>rows \<ge> 1\<close> and \<open>cols \<ge> 1\<close>, each of the four pattern generators
  (spiral inward, spiral outward, snake, diagonal) returns a list without repetition
  whose elements are exactly the pairs \<open>(row, col)\<close> with \<open>0 \<le> row < rows\<close> and
  \<open>0 \<le> col < cols\<close>. The generators take \<open>rows\<close> and \<open>cols\<close> and nothing else, so the order
  cannot depend on the text.
\<close>

theorem route_patterns_permute_grid:
  "1 \<le> rows \<Longrightarrow> 1 \<le> cols \<Longrightarrow>
   (distinct (spiral_inward rows cols) \<and>
      set (spiral_inward rows cols) = grid_cells rows cols) \<and>
   (distinct (spiral_outward rows cols) \<and>
      set (spiral_outward rows cols) = grid_cells rows cols) \<and>
   (distinct (snake_pattern rows cols) \<and>
      set (snake_pattern rows cols) = grid_cells rows cols) \<and>
   (distinct (diagonal_pattern rows cols) \<and>
      set (diagonal_pattern rows cols) = grid_cells rows cols)"
  using spiral_inward_perm[of rows cols] spiral_outward_perm[of rows cols]
    snake_pattern_perm[of rows cols] diagonal_pattern_perm[of rows cols]
  by blast

theorem route_patterns_permute_grid_witness:
  "(1::int) \<le> 3 \<and> (1::int) \<le> 4 \<and>
   spiral_inward 3 4 = [(0, 0), (0, 1), (0, 2), (0, 3), (1, 3), (2, 3), (2, 2), (2, 1),
                         (2, 0), (1, 0), (1, 1), (1, 2)] \<and>
   distinct (spiral_inward 3 4) \<and> set (spiral_inward 3 4) = grid_cells 3 4 \<and>
   distinct (spiral_outward 3 4) \<and> set (spiral_outward 3 4) = grid_cells 3 4 \<and>
   distinct (snake_pattern 3 4) \<and> set (snake_pattern 3 4) = grid_cells 3 4 \<and>
   distinct (diagonal_pattern 3 4) \<and> set (diagonal_pattern 3 4) = grid_cells 3 4"
proof -
  have a: "(1::int) \<le> 3" by simp
  have b: "(1::int) \<le> 4" by simp
  have e: "spiral_inward 3 4 = [(0, 0), (0, 1), (0, 2), (0, 3), (1, 3), (2, 3), (2, 2), (2, 1),
                         (2, 0), (1, 0), (1, 1), (1, 2)]"
    by code_simp
  show ?thesis using route_patterns_permute_grid[OF a b] a b e by blast
qed

end
